theory Spec2Isabelle
  imports Main "HOL-Library.Word"
begin

section \<open>The LRU cache of lru/LRUCache.hpp\<close>

text \<open>
  A shallow embedding of the class template \<open>lru::LRUCache<Key, Value, Lock, Map>\<close>.
  \<^item> \<open>size_t\<close> is a 64-bit word: \<open>+\<close> and \<open>-\<close> wrap around, \<open><\<close> compares unsigned.
  \<^item> \<open>std::list<KeyValuePair>\<close> is a list of nodes. A node carries its identity (what a
    list iterator designates, stable under splice, insertion and erasure of other nodes)
    and its payload.
  \<^item> \<open>std::unordered_map<Key, list::iterator>\<close> is a map from keys to node identities.
  \<^item> An exception is the result \<open>Throw\<close>, which carries the state the exception leaves
    behind. Undefined behaviour of the C++ library (\<open>back()\<close>, \<open>front()\<close> on an empty
    list, an iterator that designates no node of the list) is the result \<open>Undefined\<close>.
  \<^item> A callback is user code: it is modelled by whether it returns (\<open>True\<close>) or throws
    (\<open>False\<close>), as a function of the calls made so far and of its arguments. Every
    invocation is recorded in the field \<open>calls'\<close>.
  \<^item> The lock is modelled by the history of the calls made on it.
  \<^item> A member \<open>name_\<close> of the source is the field \<open>name'\<close> here.
\<close>

subsection \<open>Data\<close>

type_synonym size_t = "64 word"

type_synonym void_ptr = nat \<comment> \<open>\<open>nullptr\<close> is 0\<close>

type_synonym iterator = nat

datatype error = KeyNotFound | TooLargeSize | CallBackFailed

datatype ('a, 's) result = Return 'a 's | Throw error 's | Undefined

record ('k, 'v) KeyValuePair =
  key :: 'k
  value' :: 'v
  size' :: size_t

type_synonym ('k, 'v) list_type = "(iterator \<times> ('k, 'v) KeyValuePair) list"

datatype ('k, 'v) call =
  InsertCall void_ptr "('k, 'v) KeyValuePair"
| RemoveCall void_ptr "('k, 'v) KeyValuePair"

type_synonym ('k, 'v) Callback =
  "('k, 'v) call list \<Rightarrow> void_ptr \<Rightarrow> ('k, 'v) KeyValuePair \<Rightarrow> bool"

datatype lock_call = LockCall | UnlockCall

record ('k, 'v) LRUCache =
  lock' :: "lock_call list"
  cache' :: "'k \<rightharpoonup> iterator"
  keys' :: "('k, 'v) list_type"
  maxSize' :: size_t
  elasticity' :: size_t
  cacheSize' :: size_t
  removeCallback' :: "('k, 'v) Callback option"
  insertCallback' :: "('k, 'v) Callback option"
  insertClientContext' :: void_ptr
  removeClientContext' :: void_ptr
  calls' :: "('k, 'v) call list"

subsection \<open>The list operations the cache uses\<close>

text \<open>\<open>emplace_front\<close> allocates a node that is none of the nodes of the list.\<close>

fun fresh :: "('k, 'v) list_type \<Rightarrow> iterator" where
  "fresh [] = 0"
| "fresh (n # l) = max (Suc (fst n)) (fresh l)"

definition emplace_front :: "('k, 'v) KeyValuePair \<Rightarrow> ('k, 'v) list_type \<Rightarrow> ('k, 'v) list_type" where
  "emplace_front e l = (fresh l, e) # l"

text \<open>\<open>*it\<close>: the payload of the node \<open>it\<close> designates, if it is a node of the list.\<close>

definition deref :: "('k, 'v) list_type \<Rightarrow> iterator \<Rightarrow> ('k, 'v) KeyValuePair option" where
  "deref l it = map_of l it"

text \<open>\<open>l.erase(it)\<close>.\<close>

definition erase :: "iterator \<Rightarrow> ('k, 'v) list_type \<Rightarrow> ('k, 'v) list_type" where
  "erase it l = filter (\<lambda>n. fst n \<noteq> it) l"

text \<open>\<open>l.splice(l.begin(), l, it)\<close>: the node moves to the front, its identity kept.\<close>

definition splice_front :: "iterator \<Rightarrow> ('k, 'v) list_type \<Rightarrow> ('k, 'v) list_type" where
  "splice_front it l = filter (\<lambda>n. fst n = it) l @ filter (\<lambda>n. fst n \<noteq> it) l"

text \<open>Assignment through an iterator: \<open>it->size = s; it->value = v\<close>.\<close>

definition assign :: "iterator \<Rightarrow> 'v \<Rightarrow> size_t \<Rightarrow> ('k, 'v) list_type \<Rightarrow> ('k, 'v) list_type" where
  "assign it v s l =
     map (\<lambda>n. if fst n = it then (fst n, (snd n)\<lparr>size' := s, value' := v\<rparr>) else n) l"

subsection \<open>Lock guard and callbacks\<close>

definition unlock :: "('a, ('k, 'v) LRUCache) result \<Rightarrow> ('a, ('k, 'v) LRUCache) result" where
  "unlock r = (case r of
       Return a c \<Rightarrow> Return a (c\<lparr>lock' := lock' c @ [UnlockCall]\<rparr>)
     | Throw e c \<Rightarrow> Throw e (c\<lparr>lock' := lock' c @ [UnlockCall]\<rparr>)
     | Undefined \<Rightarrow> Undefined)"

text \<open>
  \<open>Guard g(lock_);\<close> at the head of a method: the lock is taken, the body runs, and the
  lock is released when the scope is left, by return or by exception.
\<close>

definition Guard ::
  "(('k, 'v) LRUCache \<Rightarrow> ('a, ('k, 'v) LRUCache) result) \<Rightarrow> ('k, 'v) LRUCache
     \<Rightarrow> ('a, ('k, 'v) LRUCache) result" where
  "Guard body c = unlock (body (c\<lparr>lock' := lock' c @ [LockCall]\<rparr>))"

text \<open>
  \<open>if (removeCallback_) { try { removeCallback_(removeClientContext_, e); }
  catch (...) { throw CallBackFailed(); } }\<close>
\<close>

definition call_remove ::
  "('k, 'v) KeyValuePair \<Rightarrow> ('k, 'v) LRUCache \<Rightarrow> (unit, ('k, 'v) LRUCache) result" where
  "call_remove e c = (case removeCallback' c of
       None \<Rightarrow> Return () c
     | Some cb \<Rightarrow>
         (let c' = c\<lparr>calls' := calls' c @ [RemoveCall (removeClientContext' c) e]\<rparr>
          in if cb (calls' c) (removeClientContext' c) e then Return () c'
             else Throw CallBackFailed c'))"

subsection \<open>The class\<close>

definition LRUCache ::
  "size_t \<Rightarrow> size_t \<Rightarrow> ('k, 'v) Callback option \<Rightarrow> ('k, 'v) Callback option
     \<Rightarrow> void_ptr \<Rightarrow> void_ptr \<Rightarrow> ('k, 'v) LRUCache" where
  "LRUCache maxSize elasticity insertCallback removeCallback insertClientContext
       removeClientContext =
     \<lparr>lock' = [], cache' = Map.empty, keys' = [],
      maxSize' = maxSize, elasticity' = elasticity, cacheSize' = 0,
      removeCallback' = removeCallback, insertCallback' = insertCallback,
      insertClientContext' = insertClientContext,
      removeClientContext' = removeClientContext, calls' = []\<rparr>"

text \<open>One round of the loop of \<open>prune\<close>; the result is the size of the evicted entry.\<close>

definition prune_step :: "('k, 'v) LRUCache \<Rightarrow> (size_t, ('k, 'v) LRUCache) result" where
  "prune_step c =
     (if keys' c = [] then Undefined
      else case call_remove (snd (last (keys' c))) c of
          Undefined \<Rightarrow> Undefined
        | Throw e c' \<Rightarrow> Throw e c'
        | Return _ c' \<Rightarrow>
            (let s = size' (snd (last (keys' c')));
                 c' = c'\<lparr>cache' := (cache' c')(key (snd (last (keys' c'))) := None)\<rparr>;
                 c' = c'\<lparr>keys' := butlast (keys' c')\<rparr>;
                 c' = c'\<lparr>cacheSize' := cacheSize' c' - s\<rparr>
             in Return s c'))"

lemma prune_step_length:
  "prune_step c = Return s c' \<Longrightarrow> length (keys' c') < length (keys' c)"
  by (auto simp: prune_step_def call_remove_def Let_def
           split: if_splits result.splits option.splits)

function prune_loop ::
  "size_t \<Rightarrow> ('k, 'v) LRUCache \<Rightarrow> (size_t, ('k, 'v) LRUCache) result" where
  "prune_loop removedSize c =
     (if cacheSize' c > maxSize' c then
        (case prune_step c of
           Undefined \<Rightarrow> Undefined
         | Throw e c' \<Rightarrow> Throw e c'
         | Return s c' \<Rightarrow> prune_loop (removedSize + s) c')
      else Return removedSize c)"
  by pat_completeness auto
termination
  by (relation "measure (\<lambda>(r, c). length (keys' c))") (auto dest: prune_step_length)

declare prune_loop.simps [simp del]

definition prune :: "('k, 'v) LRUCache \<Rightarrow> (size_t, ('k, 'v) LRUCache) result" where
  "prune c =
     (let maxAllowed = maxSize' c + elasticity' c
      in if maxSize' c = 0 \<or> cacheSize' c < maxAllowed then Return 0 c
         else prune_loop 0 c)"

definition updateSize ::
  "size_t \<Rightarrow> size_t \<Rightarrow> ('k, 'v) LRUCache \<Rightarrow> (unit, ('k, 'v) LRUCache) result" where
  "updateSize maxSize elasticity c =
     (case prune (c\<lparr>maxSize' := maxSize, elasticity' := elasticity\<rparr>) of
        Undefined \<Rightarrow> Undefined
      | Throw e c' \<Rightarrow> Throw e c'
      | Return _ c' \<Rightarrow> Return () c')"

definition size_op :: "('k, 'v) LRUCache \<Rightarrow> (size_t, ('k, 'v) LRUCache) result" where
  "size_op = Guard (\<lambda>c. Return (cacheSize' c) c)"

definition freeSize :: "('k, 'v) LRUCache \<Rightarrow> (size_t, ('k, 'v) LRUCache) result" where
  "freeSize = Guard (\<lambda>c. Return (maxSize' c + elasticity' c - cacheSize' c) c)"

definition empty_op :: "('k, 'v) LRUCache \<Rightarrow> (bool, ('k, 'v) LRUCache) result" where
  "empty_op = Guard (\<lambda>c. Return (dom (cache' c) = {}) c)"

definition clear :: "('k, 'v) LRUCache \<Rightarrow> (unit, ('k, 'v) LRUCache) result" where
  "clear = Guard (\<lambda>c. Return () (c\<lparr>cache' := Map.empty, keys' := []\<rparr>))"

text \<open>
  The end of \<open>insert\<close>: the call of the insert callback on \<open>keys_.front()\<close>, with the
  context of the call unless it is null.
\<close>

definition call_insert ::
  "void_ptr \<Rightarrow> ('k, 'v) LRUCache \<Rightarrow> (unit, ('k, 'v) LRUCache) result" where
  "call_insert insertClientContext c = (case insertCallback' c of
       None \<Rightarrow> Return () c
     | Some cb \<Rightarrow>
         (if keys' c = [] then Undefined
          else let ctx = (if insertClientContext = 0 then insertClientContext' c
                          else insertClientContext);
                   e = snd (hd (keys' c));
                   c' = c\<lparr>calls' := calls' c @ [InsertCall ctx e]\<rparr>
               in if cb (calls' c) ctx e then Return () c' else Throw CallBackFailed c'))"

text \<open>The branch of \<open>insert\<close> for a key that \<open>cache_.find\<close> has found, at \<open>it\<close>.\<close>

definition insert_present ::
  "iterator \<Rightarrow> 'v \<Rightarrow> size_t \<Rightarrow> ('k, 'v) LRUCache \<Rightarrow> (unit, ('k, 'v) LRUCache) result" where
  "insert_present it v s c =
     (case deref (keys' c) it of
        None \<Rightarrow> Undefined
      | Some e \<Rightarrow>
         (let prev_size = size' e;
              size_diff = s - prev_size
          in if size_diff > maxSize' c + elasticity' c - cacheSize' c
             then Throw TooLargeSize c
             else Return ()
               (c\<lparr>keys' := splice_front it (assign it v s (keys' c)),
                  cacheSize' := cacheSize' c + size_diff\<rparr>)))"

text \<open>The branch of \<open>insert\<close> for a key that is not in the index.\<close>

definition insert_absent ::
  "'k \<Rightarrow> 'v \<Rightarrow> size_t \<Rightarrow> ('k, 'v) LRUCache \<Rightarrow> (unit, ('k, 'v) LRUCache) result" where
  "insert_absent k v s c =
     (if s > maxSize' c + elasticity' c then Throw TooLargeSize c
      else let l = emplace_front \<lparr>key = k, value' = v, size' = s\<rparr> (keys' c)
           in Return ()
                (c\<lparr>keys' := l, cacheSize' := cacheSize' c + s,
                   cache' := (cache' c)(k \<mapsto> fst (hd l))\<rparr>))"

definition insert_op ::
  "'k \<Rightarrow> 'v \<Rightarrow> size_t \<Rightarrow> void_ptr \<Rightarrow> ('k, 'v) LRUCache \<Rightarrow> (unit, ('k, 'v) LRUCache) result" where
  "insert_op k v s insertClientContext = Guard (\<lambda>c.
     case (case cache' c k of
             Some it \<Rightarrow> insert_present it v s c
           | None \<Rightarrow> insert_absent k v s c) of
       Undefined \<Rightarrow> Undefined
     | Throw e c' \<Rightarrow> Throw e c'
     | Return _ c' \<Rightarrow>
        (case prune c' of
           Undefined \<Rightarrow> Undefined
         | Throw e c'' \<Rightarrow> Throw e c''
         | Return _ c'' \<Rightarrow> call_insert insertClientContext c''))"

definition insert3 ::
  "'k \<Rightarrow> 'v \<Rightarrow> size_t \<Rightarrow> ('k, 'v) LRUCache \<Rightarrow> (unit, ('k, 'v) LRUCache) result" where
  "insert3 k v s = insert_op k v s 0"

definition get :: "'k \<Rightarrow> ('k, 'v) LRUCache \<Rightarrow> ('v, ('k, 'v) LRUCache) result" where
  "get k = Guard (\<lambda>c.
     case cache' c k of
       None \<Rightarrow> Throw KeyNotFound c
     | Some it \<Rightarrow>
        (case deref (keys' c) it of
           None \<Rightarrow> Undefined
         | Some e \<Rightarrow> Return (value' e) (c\<lparr>keys' := splice_front it (keys' c)\<rparr>)))"

definition getCopy :: "'k \<Rightarrow> ('k, 'v) LRUCache \<Rightarrow> ('v, ('k, 'v) LRUCache) result" where
  "getCopy k = get k"

text \<open>\<open>bool getCopy(const Key&, Value& v)\<close>: the value copied out is \<open>Some\<close> when found.\<close>

definition getCopy2 :: "'k \<Rightarrow> ('k, 'v) LRUCache \<Rightarrow> (bool \<times> 'v option, ('k, 'v) LRUCache) result" where
  "getCopy2 k = Guard (\<lambda>c.
     case cache' c k of
       None \<Rightarrow> Return (False, None) c
     | Some it \<Rightarrow>
        (case deref (keys' c) it of
           None \<Rightarrow> Undefined
         | Some e \<Rightarrow> Return (True, Some (value' e)) (c\<lparr>keys' := splice_front it (keys' c)\<rparr>)))"

definition remove_op :: "'k \<Rightarrow> ('k, 'v) LRUCache \<Rightarrow> (bool, ('k, 'v) LRUCache) result" where
  "remove_op k = Guard (\<lambda>c.
     case cache' c k of
       None \<Rightarrow> Return False c
     | Some it \<Rightarrow>
        (case deref (keys' c) it of
           None \<Rightarrow> Undefined
         | Some e \<Rightarrow>
            (case call_remove e c of
               Undefined \<Rightarrow> Undefined
             | Throw err c' \<Rightarrow> Throw err c'
             | Return _ c' \<Rightarrow>
                (let s = size' e
                 in Return True
                      (c'\<lparr>keys' := erase it (keys' c'),
                          cache' := (cache' c')(k := None),
                          cacheSize' := cacheSize' c' - s\<rparr>)))))"

definition contains :: "'k \<Rightarrow> ('k, 'v) LRUCache \<Rightarrow> (bool, ('k, 'v) LRUCache) result" where
  "contains k = Guard (\<lambda>c. Return (cache' c k \<noteq> None) c)"

definition getMaxSize :: "('k, 'v) LRUCache \<Rightarrow> size_t" where
  "getMaxSize c = maxSize' c"

definition getElasticity :: "('k, 'v) LRUCache \<Rightarrow> size_t" where
  "getElasticity c = elasticity' c"

definition getMaxAllowedSize :: "('k, 'v) LRUCache \<Rightarrow> size_t" where
  "getMaxAllowedSize c = maxSize' c + elasticity' c"

text \<open>\<open>cwalk(f)\<close>: the entries handed to \<open>f\<close>, from the head to the tail.\<close>

definition cwalk ::
  "('k, 'v) LRUCache \<Rightarrow> (('k, 'v) KeyValuePair list, ('k, 'v) LRUCache) result" where
  "cwalk = Guard (\<lambda>c. Return (map snd (keys' c)) c)"

subsection \<open>Sequences of calls\<close>

text \<open>The next call is made when the call before it has returned.\<close>

definition and_then ::
  "('a, 's) result \<Rightarrow> ('s \<Rightarrow> ('b, 's) result) \<Rightarrow> ('b, 's) result" where
  "and_then r f = (case r of
       Return _ s \<Rightarrow> f s
     | Throw e s \<Rightarrow> Throw e s
     | Undefined \<Rightarrow> Undefined)"

fun returned :: "('a, 's) result \<Rightarrow> 'a option" where
  "returned (Return a s) = Some a"
| "returned (Throw e s) = None"
| "returned Undefined = None"

fun thrown :: "('a, 's) result \<Rightarrow> error option" where
  "thrown (Return a s) = None"
| "thrown (Throw e s) = Some e"
| "thrown Undefined = None"

fun state_of :: "('a, 's) result \<Rightarrow> 's option" where
  "state_of (Return a s) = Some s"
| "state_of (Throw e s) = None"
| "state_of Undefined = None"

datatype ('k, 'v) operation =
  UpdateSize size_t size_t
| Size
| FreeSize
| Empty
| Clear
| Insert 'k 'v size_t void_ptr
| Insert3 'k 'v size_t
| Get 'k
| GetCopy 'k
| GetCopy2 'k
| Remove 'k
| Contains 'k
| GetMaxSize
| GetElasticity
| GetMaxAllowedSize
| Cwalk

text \<open>The state a public operation leaves when it returns.\<close>

fun perform :: "('k, 'v) operation \<Rightarrow> ('k, 'v) LRUCache \<Rightarrow> ('k, 'v) LRUCache option" where
  "perform (UpdateSize maxSize elasticity) c = state_of (updateSize maxSize elasticity c)"
| "perform Size c = state_of (size_op c)"
| "perform FreeSize c = state_of (freeSize c)"
| "perform Empty c = state_of (empty_op c)"
| "perform Clear c = state_of (clear c)"
| "perform (Insert k v s ctx) c = state_of (insert_op k v s ctx c)"
| "perform (Insert3 k v s) c = state_of (insert3 k v s c)"
| "perform (Get k) c = state_of (get k c)"
| "perform (GetCopy k) c = state_of (getCopy k c)"
| "perform (GetCopy2 k) c = state_of (getCopy2 k c)"
| "perform (Remove k) c = state_of (remove_op k c)"
| "perform (Contains k) c = state_of (contains k c)"
| "perform GetMaxSize c = Some c"
| "perform GetElasticity c = Some c"
| "perform GetMaxAllowedSize c = Some c"
| "perform Cwalk c = state_of (cwalk c)"

text \<open>A sequence of public operations, each of which returns.\<close>

fun run :: "('k, 'v) operation list \<Rightarrow> ('k, 'v) LRUCache \<Rightarrow> ('k, 'v) LRUCache option" where
  "run [] c = Some c"
| "run (x # xs) c = (case perform x c of None \<Rightarrow> None | Some c' \<Rightarrow> run xs c')"

text \<open>The keys of the recency list, from the head to the tail.\<close>

definition key_order :: "('k, 'v) LRUCache \<Rightarrow> 'k list" where
  "key_order c = map (\<lambda>n. key (snd n)) (keys' c)"

text \<open>\<open>get(k)\<close> called \<open>n\<close> times in a row; the result is the list of the values returned.\<close>

fun repeat_get :: "nat \<Rightarrow> 'k \<Rightarrow> ('k, 'v) LRUCache \<Rightarrow> ('v list, ('k, 'v) LRUCache) result" where
  "repeat_get 0 k c = Return [] c"
| "repeat_get (Suc n) k c = (case get k c of
       Undefined \<Rightarrow> Undefined
     | Throw e c' \<Rightarrow> Throw e c'
     | Return v c' \<Rightarrow>
        (case repeat_get n k c' of
           Undefined \<Rightarrow> Undefined
         | Throw e c'' \<Rightarrow> Throw e c''
         | Return vs c'' \<Rightarrow> Return (v # vs) c''))"

subsection \<open>Well-formed states\<close>

text \<open>
  The index and the list agree: no two nodes of the list are the same node, no two hold
  the same key, and the index maps exactly the keys of the list, each to its node.
\<close>

definition wf :: "('k, 'v) LRUCache \<Rightarrow> bool" where
  "wf c \<longleftrightarrow>
     distinct (map fst (keys' c)) \<and> distinct (key_order c) \<and>
     cache' c = map_of (map (\<lambda>n. (key (snd n), fst n)) (keys' c))"

text \<open>The sum of the sizes of the entries of a list, as a natural number.\<close>

definition weight :: "('k, 'v) list_type \<Rightarrow> nat" where
  "weight l = sum_list (map (\<lambda>n. unat (size' (snd n))) l)"

definition weight_ok :: "('k, 'v) LRUCache \<Rightarrow> bool" where
  "weight_ok c \<longleftrightarrow> unat (cacheSize' c) = weight (keys' c)"

text \<open>
  A capacity with a soft limit, and small enough that neither \<open>maxSize_ + elasticity_\<close>
  nor the weight of a cache within the hard limit plus one more entry wraps around.
\<close>

definition capacity_ok :: "size_t \<Rightarrow> size_t \<Rightarrow> bool" where
  "capacity_ok maxSize elasticity \<longleftrightarrow> maxSize \<noteq> 0 \<and> unat maxSize + unat elasticity < 2 ^ 63"

text \<open>
  The index and the list agree and \<open>cacheSize_\<close> is the sum of the sizes of the entries.
\<close>

definition consistent :: "('k, 'v) LRUCache \<Rightarrow> bool" where
  "consistent c \<longleftrightarrow> wf c \<and> weight_ok c"

text \<open>The capacity is as above and \<open>cacheSize_\<close> is at most \<open>maxSize_ + elasticity_\<close>.\<close>

definition within_limit :: "('k, 'v) LRUCache \<Rightarrow> bool" where
  "within_limit c \<longleftrightarrow>
     capacity_ok (maxSize' c) (elasticity' c) \<and>
     unat (cacheSize' c) \<le> unat (maxSize' c) + unat (elasticity' c)"


text \<open>The entries that are in the list of \<open>c\<close> after those of the list of \<open>c'\<close>.\<close>

definition evicted :: "('k, 'v) LRUCache \<Rightarrow> ('k, 'v) LRUCache \<Rightarrow> ('k, 'v) list_type" where
  "evicted c c' = drop (length (keys' c')) (keys' c)"

text \<open>The state a call leaves behind, by return or by exception.\<close>

fun state_left :: "('a, 's) result \<Rightarrow> 's option" where
  "state_left (Return a s) = Some s"
| "state_left (Throw e s) = Some s"
| "state_left Undefined = None"

text \<open>A public operation whose exception, if any, the caller catches.\<close>

fun attempt :: "('k, 'v) operation \<Rightarrow> ('k, 'v) LRUCache \<Rightarrow> ('k, 'v) LRUCache option" where
  "attempt (UpdateSize maxSize elasticity) c = state_left (updateSize maxSize elasticity c)"
| "attempt Size c = state_left (size_op c)"
| "attempt FreeSize c = state_left (freeSize c)"
| "attempt Empty c = state_left (empty_op c)"
| "attempt Clear c = state_left (clear c)"
| "attempt (Insert k v s ctx) c = state_left (insert_op k v s ctx c)"
| "attempt (Insert3 k v s) c = state_left (insert3 k v s c)"
| "attempt (Get k) c = state_left (get k c)"
| "attempt (GetCopy k) c = state_left (getCopy k c)"
| "attempt (GetCopy2 k) c = state_left (getCopy2 k c)"
| "attempt (Remove k) c = state_left (remove_op k c)"
| "attempt (Contains k) c = state_left (contains k c)"
| "attempt GetMaxSize c = Some c"
| "attempt GetElasticity c = Some c"
| "attempt GetMaxAllowedSize c = Some c"
| "attempt Cwalk c = state_left (cwalk c)"

text \<open>
  A sequence of public operations: each one returns or throws, and the next one is
  called on the state that is left.
\<close>

fun attempt_all ::
  "('k, 'v) operation list \<Rightarrow> ('k, 'v) LRUCache \<Rightarrow> ('k, 'v) LRUCache option" where
  "attempt_all [] c = Some c"
| "attempt_all (x # xs) c =
     (case attempt x c of None \<Rightarrow> None | Some c' \<Rightarrow> attempt_all xs c')"

text \<open>The remove callback, if there is one, never throws.\<close>

definition remove_callback_returns :: "('k, 'v) Callback option \<Rightarrow> bool" where
  "remove_callback_returns removeCallback \<longleftrightarrow>
     (\<forall>cb h p e. removeCallback = Some cb \<longrightarrow> cb h p e)"

text \<open>What the operations keep while the remove callback never throws.\<close>

definition invariant :: "('k, 'v) LRUCache \<Rightarrow> bool" where
  "invariant c \<longleftrightarrow>
     consistent c \<and> within_limit c \<and> remove_callback_returns (removeCallback' c)"

lemmas call_defs =
  insert3_def insert_op_def insert_present_def insert_absent_def Guard_def unlock_def LRUCache_def emplace_front_def
  prune_def prune_loop.simps prune_step_def call_remove_def call_insert_def
  updateSize_def size_op_def freeSize_def empty_op_def clear_def get_def getCopy_def
  getCopy2_def remove_op_def contains_def cwalk_def deref_def erase_def
  splice_front_def assign_def and_then_def key_order_def

section \<open>Properties\<close>

subsection \<open>Facts about the list operations\<close>

lemma length_splice_front [simp]: "length (splice_front it l) = length l"
  by (simp add: splice_front_def sum_length_filter_compl)

lemma length_assign [simp]: "length (assign it v s l) = length l"
  by (simp add: assign_def)

lemma set_splice_front [simp]: "set (splice_front it l) = set l"
  by (auto simp: splice_front_def)

lemma keys_assign [simp]:
  "map (\<lambda>n. key (snd n)) (assign it v s l) = map (\<lambda>n. key (snd n)) l"
  by (simp add: assign_def)

lemma ids_assign [simp]: "map fst (assign it v s l) = map fst l"
  by (simp add: assign_def)

lemma clear_returns:
  "clear c = Return () (c\<lparr>lock' := lock' c @ [LockCall, UnlockCall], cache' := Map.empty,
     keys' := []\<rparr>)"
  by (simp add: clear_def Guard_def unlock_def)

subsection \<open>Lists of nodes\<close>

lemma fresh_greater: "n \<in> set l \<Longrightarrow> fst n < fresh l"
  by (induction l) (auto simp: less_max_iff_disj)

lemma fresh_notin: "fresh l \<notin> fst ` set l"
proof
  assume "fresh l \<in> fst ` set l"
  then obtain n where "n \<in> set l" "fst n = fresh l"
    by auto
  then show False
    using fresh_greater [of n l] by simp
qed

lemma map_of_filter_same:
  "map_of (filter (\<lambda>n. fst n = it) l) it' = (if it' = it then map_of l it else None)"
  by (induction l) auto

lemma map_of_filter_other:
  "map_of (filter (\<lambda>n. fst n \<noteq> it) l) it' = (if it' = it then None else map_of l it')"
  by (induction l) auto

lemma deref_splice_front [simp]: "deref (splice_front it l) it' = deref l it'"
  by (simp add: deref_def splice_front_def map_add_def map_of_filter_same
      map_of_filter_other split: option.splits)

lemma splice_front_idem [simp]: "splice_front it (splice_front it l) = splice_front it l"
  by (simp add: splice_front_def filter_empty_conv)

lemma distinct_map_splice_front:
  "distinct (map f l) \<Longrightarrow> distinct (map f (splice_front it l))"
  by (auto simp: splice_front_def distinct_map_filter distinct_map inj_on_def)

lemma map_of_index_splice_front:
  assumes "distinct (map (\<lambda>n. key (snd n)) l)"
  shows "map_of (map (\<lambda>n. (key (snd n), fst n)) (splice_front it l)) =
    map_of (map (\<lambda>n. (key (snd n), fst n)) l)"
proof -
  have d: "distinct (map fst (map (\<lambda>n. (key (snd n), fst n)) l))"
    using assms by (simp add: comp_def)
  have d': "distinct (map fst (map (\<lambda>n. (key (snd n), fst n)) (splice_front it l)))"
    using distinct_map_splice_front [OF assms, of it] by (simp add: comp_def)
  show ?thesis
    using d d' by (simp add: map_of_inject_set)
qed

lemma index_assign [simp]:
  "map (\<lambda>n. (key (snd n), fst n)) (assign it v s l) = map (\<lambda>n. (key (snd n), fst n)) l"
  by (simp add: assign_def)

lemma map_of_filter_fst: "map_of (filter (\<lambda>p. fst p \<noteq> k) xs) = (map_of xs)(k := None)"
  by (induction xs) (auto simp: fun_eq_iff)

lemma erase_by_key:
  assumes "distinct (map fst l)" "distinct (map (\<lambda>n. key (snd n)) l)" "(it, e) \<in> set l"
  shows "erase it l = filter (\<lambda>n. key (snd n) \<noteq> key e) l"
  unfolding erase_def
proof (rule filter_cong [OF refl])
  fix n assume n: "n \<in> set l"
  have i1: "inj_on fst (set l)" and i2: "inj_on (\<lambda>n. key (snd n)) (set l)"
    using assms(1,2) by (simp_all add: distinct_map)
  have "n = (it, e)" if "fst n = it"
    using inj_onD [OF i1 _ n assms(3)] that by simp
  moreover have "n = (it, e)" if "key (snd n) = key e"
    using inj_onD [OF i2 _ n assms(3)] that by simp
  ultimately show "(fst n \<noteq> it) = (key (snd n) \<noteq> key e)"
    by (metis fst_conv snd_conv)
qed

lemma map_of_index_erase:
  assumes "distinct (map fst l)" "distinct (map (\<lambda>n. key (snd n)) l)" "(it, e) \<in> set l"
  shows "map_of (map (\<lambda>n. (key (snd n), fst n)) (erase it l)) =
    (map_of (map (\<lambda>n. (key (snd n), fst n)) l))(key e := None)"
proof -
  have "map (\<lambda>n. (key (snd n), fst n)) (erase it l) =
      filter (\<lambda>p. fst p \<noteq> key e) (map (\<lambda>n. (key (snd n), fst n)) l)"
    by (simp add: erase_by_key [OF assms] filter_map comp_def)
  then show ?thesis
    by (simp add: map_of_filter_fst)
qed

lemma map_of_index_butlast:
  assumes "distinct (map (\<lambda>n. key (snd n)) l)" "l \<noteq> []"
  shows "(map_of (map (\<lambda>n. (key (snd n), fst n)) l))(key (snd (last l)) := None) =
    map_of (map (\<lambda>n. (key (snd n), fst n)) (butlast l))"
proof -
  obtain xs x where l: "l = xs @ [x]"
    using assms(2) by (metis append_butlast_last_id)
  have "key (snd x) \<notin> (\<lambda>n. key (snd n)) ` set xs"
    using assms(1) by (auto simp: l)
  then have "map_of (map (\<lambda>n. (key (snd n), fst n)) xs) (key (snd x)) = None"
    by (simp add: map_of_eq_None_iff image_image)
  then show ?thesis
    by (auto simp: l fun_eq_iff map_add_def split: option.splits)
qed

subsection \<open>Weights\<close>

lemma weight_Cons [simp]: "weight (n # l) = unat (size' (snd n)) + weight l"
  by (simp add: weight_def)

lemma weight_Nil [simp]: "weight [] = 0"
  by (simp add: weight_def)

lemma weight_append [simp]: "weight (xs @ ys) = weight xs + weight ys"
  by (simp add: weight_def)

lemma weight_splice_front [simp]: "weight (splice_front it l) = weight l"
  by (induction l) (auto simp: splice_front_def)





lemma weight_butlast:
  "l \<noteq> [] \<Longrightarrow> weight (butlast l) + unat (size' (snd (last l))) = weight l"
  by (induction l) auto

subsection \<open>Returning calls, step by step\<close>

lemma Guard_Return:
  "Guard body c = Return a c' \<Longrightarrow>
     \<exists>c''. body (c\<lparr>lock' := lock' c @ [LockCall]\<rparr>) = Return a c'' \<and>
       c' = c''\<lparr>lock' := lock' c'' @ [UnlockCall]\<rparr>"
  by (auto simp: Guard_def unlock_def split: result.splits)

lemma call_remove_Return:
  "call_remove e c = Return u c' \<Longrightarrow> \<exists>x. c' = c\<lparr>calls' := x\<rparr>"
  by (auto simp: call_remove_def Let_def split: option.splits if_splits) (metis LRUCache.surjective LRUCache.update_convs(11))

lemma call_insert_Return:
  "call_insert ctx c = Return u c' \<Longrightarrow> \<exists>x. c' = c\<lparr>calls' := x\<rparr>"
  by (auto simp: call_insert_def Let_def split: option.splits if_splits) (metis LRUCache.surjective LRUCache.update_convs(11))

lemma prune_step_Return:
  "prune_step c = Return s c' \<Longrightarrow>
     keys' c \<noteq> [] \<and> s = size' (snd (last (keys' c))) \<and>
     (\<exists>x. c' = c\<lparr>calls' := x, cache' := (cache' c)(key (snd (last (keys' c))) := None),
        keys' := butlast (keys' c), cacheSize' := cacheSize' c - s\<rparr>)"
  by (auto simp: prune_step_def Let_def split: if_splits result.splits dest!: call_remove_Return)

lemma insert_present_Return:
  "insert_present it v s c = Return u c' \<Longrightarrow>
     \<exists>e. deref (keys' c) it = Some e \<and>
       \<not> s - size' e > maxSize' c + elasticity' c - cacheSize' c \<and>
       c' = c\<lparr>keys' := splice_front it (assign it v s (keys' c)),
              cacheSize' := cacheSize' c + (s - size' e)\<rparr>"
  by (auto simp: insert_present_def Let_def split: option.splits if_splits)

lemma insert_absent_Return:
  "insert_absent k v s c = Return u c' \<Longrightarrow>
     \<not> s > maxSize' c + elasticity' c \<and>
     c' = c\<lparr>keys' := emplace_front \<lparr>key = k, value' = v, size' = s\<rparr> (keys' c),
            cacheSize' := cacheSize' c + s,
            cache' := (cache' c)(k \<mapsto> fresh (keys' c))\<rparr>"
  by (auto simp: insert_absent_def Let_def emplace_front_def split: if_splits)

lemma insert_op_Return:
  assumes "insert_op k v s ctx c = Return u c'"
  shows "\<exists>c1 r c2 x y.
     (case cache' c k of Some it \<Rightarrow> insert_present it v s (c\<lparr>lock' := x\<rparr>)
        | None \<Rightarrow> insert_absent k v s (c\<lparr>lock' := x\<rparr>)) = Return () c1 \<and>
     prune c1 = Return r c2 \<and> c' = c2\<lparr>calls' := y, lock' := lock' c2 @ [UnlockCall]\<rparr>"
proof -
  from Guard_Return [OF assms [unfolded insert_op_def]]
  obtain c'' where b: "(case (case cache' (c\<lparr>lock' := lock' c @ [LockCall]\<rparr>) k of
             Some it \<Rightarrow> insert_present it v s (c\<lparr>lock' := lock' c @ [LockCall]\<rparr>)
           | None \<Rightarrow> insert_absent k v s (c\<lparr>lock' := lock' c @ [LockCall]\<rparr>)) of
       Undefined \<Rightarrow> Undefined
     | Throw e c' \<Rightarrow> Throw e c'
     | Return _ c' \<Rightarrow>
        (case prune c' of
           Undefined \<Rightarrow> Undefined
         | Throw e c'' \<Rightarrow> Throw e c''
         | Return _ c'' \<Rightarrow> call_insert ctx c'')) = Return u c''"
    and c': "c' = c''\<lparr>lock' := lock' c'' @ [UnlockCall]\<rparr>"
    by blast
  from b obtain c1 r c2 where
    1: "(case cache' c k of
             Some it \<Rightarrow> insert_present it v s (c\<lparr>lock' := lock' c @ [LockCall]\<rparr>)
           | None \<Rightarrow> insert_absent k v s (c\<lparr>lock' := lock' c @ [LockCall]\<rparr>)) = Return () c1"
    and 2: "prune c1 = Return r c2" and 3: "call_insert ctx c2 = Return u c''"
    by (auto split: result.splits)
  from call_insert_Return [OF 3] obtain y where "c'' = c2\<lparr>calls' := y\<rparr>"
    by blast
  with c' have "c' = c2\<lparr>calls' := y, lock' := lock' c2 @ [UnlockCall]\<rparr>"
    by simp
  with 1 2 show ?thesis
    by blast
qed


subsection \<open>Arithmetic of sizes\<close>


lemmas size_t_arith =
  word_less_nat_alt word_le_nat_alt unat_plus_if' unat_sub_if_size word_size


lemma size_add_no_wrap:
  fixes m e cs s :: size_t
  shows "unat m + unat e < 2 ^ 63 \<Longrightarrow> unat cs \<le> unat m + unat e \<Longrightarrow> \<not> m + e < s \<Longrightarrow>
    unat (cs + s) = unat cs + unat s"
  by (simp add: size_t_arith)

lemma size_sub_no_wrap:
  fixes cs s :: size_t
  shows "unat s \<le> unat cs \<Longrightarrow> unat (cs - s) = unat cs - unat s"
  by (simp add: size_t_arith)



subsection \<open>Well-formed states are kept\<close>

lemma wf_same:
  "keys' c' = keys' c \<Longrightarrow> cache' c' = cache' c \<Longrightarrow> wf c' = wf c"
  by (simp add: wf_def key_order_def)

lemma wf_lookup:
  assumes "wf c" "cache' c k = Some it"
  obtains e where "deref (keys' c) it = Some e" "key e = k" "(it, e) \<in> set (keys' c)"
proof -
  have "map_of (map (\<lambda>n. (key (snd n), fst n)) (keys' c)) k = Some it"
    using assms by (simp add: wf_def)
  then have "(k, it) \<in> set (map (\<lambda>n. (key (snd n), fst n)) (keys' c))"
    by (rule map_of_SomeD)
  then obtain n where n: "n \<in> set (keys' c)" "key (snd n) = k" "fst n = it"
    by auto
  then have "(it, snd n) \<in> set (keys' c)"
    by (metis prod.collapse)
  moreover from this have "deref (keys' c) it = Some (snd n)"
    using assms(1) by (simp add: wf_def deref_def)
  ultimately show ?thesis
    using n(2) that by blast
qed

lemma wf_absent: "wf c \<Longrightarrow> cache' c k = None \<longleftrightarrow> k \<notin> set (key_order c)"
  by (simp add: wf_def key_order_def map_of_eq_None_iff image_image)

lemma wf_splice:
  assumes "wf c" "keys' c' = splice_front it (keys' c)" "cache' c' = cache' c"
  shows "wf c'"
  using assms
  by (simp add: wf_def key_order_def distinct_map_splice_front map_of_index_splice_front)

lemma wf_assign:
  assumes "wf c" "keys' c' = assign it v s (keys' c)" "cache' c' = cache' c"
  shows "wf c'"
  using assms by (simp add: wf_def key_order_def)

lemma wf_emplace:
  assumes "wf c" "cache' c k = None"
    "keys' c' = emplace_front \<lparr>key = k, value' = v, size' = s\<rparr> (keys' c)"
    "cache' c' = (cache' c)(k \<mapsto> fresh (keys' c))"
  shows "wf c'"
proof -
  have "k \<notin> set (key_order c)"
    using assms(1,2) by (simp add: wf_absent)
  then show ?thesis
    using assms fresh_notin [of "keys' c"]
    by (simp add: wf_def key_order_def emplace_front_def)
qed

lemma wf_erase:
  assumes "wf c" "cache' c k = Some it" "keys' c' = erase it (keys' c)"
    "cache' c' = (cache' c)(k := None)"
  shows "wf c'"
proof -
  obtain e where e: "key e = k" "(it, e) \<in> set (keys' c)"
    using wf_lookup [OF assms(1,2)] by blast
  have d: "distinct (map fst (keys' c))" "distinct (map (\<lambda>n. key (snd n)) (keys' c))"
    using assms(1) by (simp_all add: wf_def key_order_def)
  show ?thesis
    using assms d map_of_index_erase [OF d e(2)] e(1)
    by (simp add: wf_def key_order_def) (simp add: erase_def distinct_map_filter)
qed

lemma wf_butlast:
  assumes "wf c" "keys' c \<noteq> []" "keys' c' = butlast (keys' c)"
    "cache' c' = (cache' c)(key (snd (last (keys' c))) := None)"
  shows "wf c'"
proof -
  have "distinct (map fst (butlast (keys' c)))"
    using assms(1) distinct_butlast [of "map fst (keys' c)"] by (simp add: wf_def map_butlast)
  moreover have "distinct (map (\<lambda>n. key (snd n)) (butlast (keys' c)))"
    using assms(1) distinct_butlast [of "map (\<lambda>n. key (snd n)) (keys' c)"]
    by (simp add: wf_def key_order_def map_butlast)
  ultimately show ?thesis
    using assms map_of_index_butlast [of "keys' c"]
    by (simp add: wf_def key_order_def)
qed

lemma wf_empty: "keys' c = [] \<Longrightarrow> cache' c = Map.empty \<Longrightarrow> wf c"
  by (simp add: wf_def key_order_def)

subsection \<open>Consistent states are kept\<close>

lemma consistent_same:
  "keys' c' = keys' c \<Longrightarrow> cache' c' = cache' c \<Longrightarrow> cacheSize' c' = cacheSize' c \<Longrightarrow>
     consistent c' = consistent c"
  using wf_same [of c' c] by (simp add: consistent_def weight_ok_def)

lemma within_limit_same:
  "maxSize' c' = maxSize' c \<Longrightarrow> elasticity' c' = elasticity' c \<Longrightarrow>
     cacheSize' c' = cacheSize' c \<Longrightarrow> within_limit c' = within_limit c"
  by (simp add: within_limit_def)

lemma consistent_prune_step:
  assumes "consistent c" "prune_step c = Return s c'"
  shows "consistent c'"
proof -
  from prune_step_Return [OF assms(2)] obtain x where
    ne: "keys' c \<noteq> []" and s: "s = size' (snd (last (keys' c)))" and
    c': "c' = c\<lparr>calls' := x, cache' := (cache' c)(key (snd (last (keys' c))) := None),
        keys' := butlast (keys' c), cacheSize' := cacheSize' c - s\<rparr>"
    by blast
  have "unat (cacheSize' c) = weight (keys' c)"
    using assms(1) by (simp add: consistent_def weight_ok_def)
  also have "\<dots> = weight (butlast (keys' c)) + unat s"
    unfolding s by (rule weight_butlast [OF ne, symmetric])
  finally have w: "unat (cacheSize' c) = weight (butlast (keys' c)) + unat s" .
  then have "unat s \<le> unat (cacheSize' c)"
    by linarith
  then have "unat (cacheSize' c - s) = unat (cacheSize' c) - unat s"
    by (rule size_sub_no_wrap)
  with w have "unat (cacheSize' c - s) = weight (butlast (keys' c))"
    by linarith
  moreover have "keys' c' = butlast (keys' c)" "cacheSize' c' = cacheSize' c - s"
    "cache' c' = (cache' c)(key (snd (last (keys' c))) := None)"
    unfolding c' by simp_all
  moreover have "wf c" 
    using assms(1) by (simp add: consistent_def)
  ultimately show ?thesis
    using wf_butlast [of c c'] ne by (simp add: consistent_def weight_ok_def)
qed


lemma prune_step_defined:
  assumes "consistent c" "maxSize' c < cacheSize' c"
  shows "prune_step c \<noteq> Undefined"
proof -
  have "0 < unat (cacheSize' c)"
    using assms(2) by (simp add: word_less_nat_alt)
  then have "keys' c \<noteq> []"
    using assms(1) by (auto simp: consistent_def weight_ok_def)
  then show ?thesis
    by (simp add: prune_step_def call_remove_def Let_def split: option.splits)
qed


lemma prune_loop_defined:
  "consistent c \<Longrightarrow> prune_loop r c \<noteq> Undefined"
proof (induction r c rule: prune_loop.induct)
  case (1 removedSize c)
  show ?case
  proof (cases "maxSize' c < cacheSize' c")
    case True
    show ?thesis
    proof (cases "prune_step c")
      case (Return s c1)
      then show ?thesis
        using "1.IH" [OF True Return consistent_prune_step [OF "1.prems" Return]] True
        by (simp add: prune_loop.simps [of removedSize c])
    next
      case (Throw e c1)
      then show ?thesis
        using True by (simp add: prune_loop.simps [of removedSize c])
    next
      case Undefined
      then show ?thesis
        using prune_step_defined [OF "1.prems" True] by simp
    qed
  next
    case False
    then show ?thesis
      by (simp add: prune_loop.simps [of removedSize c])
  qed
qed

lemma prune_defined: "consistent c \<Longrightarrow> prune c \<noteq> Undefined"
  by (simp add: prune_def Let_def prune_loop_defined)


subsection \<open>The operations keep the invariant\<close>

lemma insert_absent_invariant:
  assumes "consistent c" "within_limit c" "cache' c k = None"
    "insert_absent k v s c = Return u c'"
  shows "consistent c' \<and> capacity_ok (maxSize' c') (elasticity' c')"
proof -
  from insert_absent_Return [OF assms(4)] have
    s: "\<not> maxSize' c + elasticity' c < s" and
    c': "c' = c\<lparr>keys' := emplace_front \<lparr>key = k, value' = v, size' = s\<rparr> (keys' c),
            cacheSize' := cacheSize' c + s,
            cache' := (cache' c)(k \<mapsto> fresh (keys' c))\<rparr>"
    by blast+
  have k: "keys' c' = emplace_front \<lparr>key = k, value' = v, size' = s\<rparr> (keys' c)"
    "cache' c' = (cache' c)(k \<mapsto> fresh (keys' c))" "cacheSize' c' = cacheSize' c + s"
    "maxSize' c' = maxSize' c" "elasticity' c' = elasticity' c"
    unfolding c' by simp_all
  have "wf c'"
    using assms(1,3) k(1,2) by (auto simp: consistent_def intro: wf_emplace)
  moreover have "unat (cacheSize' c + s) = unat (cacheSize' c) + unat s"
    using assms(2) s by (intro size_add_no_wrap) (simp_all add: within_limit_def capacity_ok_def)
  then have "weight_ok c'"
    using assms(1) by (simp add: consistent_def weight_ok_def k emplace_front_def)
  ultimately show ?thesis
    using assms(2) by (simp add: consistent_def within_limit_def k)
qed


lemma consistent_frame:
  "consistent (c\<lparr>lock' := x\<rparr>) = consistent c" "consistent (c\<lparr>calls' := y\<rparr>) = consistent c"
  "consistent (c\<lparr>maxSize' := m\<rparr>) = consistent c"
  "consistent (c\<lparr>elasticity' := e\<rparr>) = consistent c"
  by (simp_all add: consistent_def weight_ok_def wf_def key_order_def)



lemma Guard_reader:
  "Guard (\<lambda>c. Return (f c) c) c = Return (f (c\<lparr>lock' := lock' c @ [LockCall]\<rparr>))
     (c\<lparr>lock' := lock' c @ [LockCall, UnlockCall]\<rparr>)"
  by (simp add: Guard_def unlock_def)


subsection \<open>What the eviction pass does\<close>

lemma prune_loop_evicts:
  "prune_loop r0 c = Return r c' \<Longrightarrow>
     \<not> maxSize' c < cacheSize' c' \<and>
     keys' c' = take (length (keys' c')) (keys' c) \<and>
     cacheSize' c' + r = cacheSize' c + r0 \<and>
     (length (keys' c') = length (keys' c) \<longrightarrow> c' = c \<and> r = r0) \<and>
     (length (keys' c') < length (keys' c) \<longrightarrow>
        maxSize' c < cacheSize' c' + size' (snd (keys' c ! length (keys' c')))) \<and>
     maxSize' c' = maxSize' c \<and> elasticity' c' = elasticity' c \<and>
     cache' c' = (\<lambda>k. if k \<in> (\<lambda>n. key (snd n)) ` set (evicted c c') then None else cache' c k)"
proof (induction r0 c rule: prune_loop.induct)
  case (1 r0 c)
  show ?case
  proof (cases "maxSize' c < cacheSize' c")
    case False
    then have "c' = c" "r = r0"
      using "1.prems" by (simp_all add: prune_loop.simps [of r0 c])
    with False show ?thesis
      by (simp add: evicted_def)
  next
    case True
    with "1.prems" obtain s c1 where s: "prune_step c = Return s c1"
      and l: "prune_loop (r0 + s) c1 = Return r c'"
      by (auto simp: prune_loop.simps [of r0 c] split: result.splits)
    from prune_step_Return [OF s] obtain x where
      ne: "keys' c \<noteq> []" and s_def: "s = size' (snd (last (keys' c)))" and
      c1: "c1 = c\<lparr>calls' := x, cache' := (cache' c)(key (snd (last (keys' c))) := None),
        keys' := butlast (keys' c), cacheSize' := cacheSize' c - s\<rparr>"
      by blast
    have k1: "keys' c1 = butlast (keys' c)" "cacheSize' c1 = cacheSize' c - s"
      "cache' c1 = (cache' c)(key (snd (last (keys' c))) := None)"
      "maxSize' c1 = maxSize' c" "elasticity' c1 = elasticity' c"
      unfolding c1 by simp_all
    from "1.IH" [OF True s l] have
      a: "\<not> maxSize' c1 < cacheSize' c'" and
      b: "keys' c' = take (length (keys' c')) (keys' c1)" and
      c: "cacheSize' c' + r = cacheSize' c1 + (r0 + s)" and
      d: "length (keys' c') = length (keys' c1) \<longrightarrow> c' = c1 \<and> r = r0 + s" and
      e: "length (keys' c') < length (keys' c1) \<longrightarrow>
        maxSize' c1 < cacheSize' c' + size' (snd (keys' c1 ! length (keys' c')))" and
      f: "maxSize' c' = maxSize' c1" "elasticity' c' = elasticity' c1" and
      g: "cache' c' = (\<lambda>k. if k \<in> (\<lambda>n. key (snd n)) ` set (evicted c1 c') then None
            else cache' c1 k)"
      by blast+
    let ?n = "length (keys' c')"
    from b have "?n = length (take ?n (keys' c1))"
      by (rule arg_cong)
    then have "?n \<le> length (keys' c1)"
      unfolding length_take by linarith
    then have len: "?n \<le> length (butlast (keys' c))"
      unfolding k1 .
    then have lt: "?n < length (keys' c)"
      using ne by (cases "keys' c" rule: rev_cases) simp_all
    have 2: "keys' c' = take ?n (keys' c)"
      using b lt unfolding k1 by (simp add: take_butlast)
    have 3: "cacheSize' c' + r = cacheSize' c + r0"
      using c unfolding k1 by simp
    have 5: "maxSize' c < cacheSize' c' + size' (snd (keys' c ! ?n))"
    proof (cases "?n = length (keys' c1)")
      case True
      with d have "c' = c1"
        by blast
      moreover have "keys' c ! ?n = last (keys' c)"
        using True ne unfolding k1 by (simp add: last_conv_nth)
      ultimately show ?thesis
        using \<open>maxSize' c < cacheSize' c\<close> by (simp add: k1 s_def)
    next
      case False
      then have "?n < length (keys' c1)"
        using len unfolding k1 by simp
      with e show ?thesis
        unfolding k1 by (simp add: nth_butlast)
    qed
    have "drop ?n (keys' c) = drop ?n (butlast (keys' c)) @ [last (keys' c)]"
      using len ne by (metis append_butlast_last_id drop_append diff_is_0_eq drop_0)
    then have "set (evicted c c') = insert (last (keys' c)) (set (evicted c1 c'))"
      by (simp add: evicted_def k1)
    then have 6: "cache' c' =
        (\<lambda>k. if k \<in> (\<lambda>n. key (snd n)) ` set (evicted c c') then None else cache' c k)"
      unfolding g k1 by (auto simp: fun_eq_iff)
    show ?thesis
      using a 2 3 lt 5 f 6 unfolding k1 by simp
  qed
qed


lemma prune_Return_cases:
  assumes "prune c = Return r c'"
  shows "(if maxSize' c = 0 \<or> cacheSize' c < maxSize' c + elasticity' c then c' = c \<and> r = 0
       else cacheSize' c' \<le> maxSize' c \<and>
            keys' c = keys' c' @ evicted c c' \<and>
            cacheSize' c' + r = cacheSize' c \<and>
            cache' c' = (\<lambda>k. if k \<in> (\<lambda>n. key (snd n)) ` set (evicted c c') then None
               else cache' c k) \<and>
            (evicted c c' \<noteq> [] \<longrightarrow>
               maxSize' c < cacheSize' c' + size' (snd (hd (evicted c c')))) \<and>
            maxSize' c' = maxSize' c \<and> elasticity' c' = elasticity' c)"
proof (cases "maxSize' c = 0 \<or> cacheSize' c < maxSize' c + elasticity' c")
  case True
  then show ?thesis
    using assms by (auto simp: prune_def)
next
  case False
  then have "prune_loop 0 c = Return r c'"
    using assms by (simp add: prune_def)
  from prune_loop_evicts [OF this] have
    a: "\<not> maxSize' c < cacheSize' c'" and
    b: "keys' c' = take (length (keys' c')) (keys' c)" and
    c: "cacheSize' c' + r = cacheSize' c + 0" and
    e: "length (keys' c') < length (keys' c) \<longrightarrow>
        maxSize' c < cacheSize' c' + size' (snd (keys' c ! length (keys' c')))" and
    f: "maxSize' c' = maxSize' c" "elasticity' c' = elasticity' c" and
    g: "cache' c' = (\<lambda>k. if k \<in> (\<lambda>n. key (snd n)) ` set (evicted c c') then None
            else cache' c k)"
    by blast+
  have 1: "keys' c = keys' c' @ evicted c c'"
    unfolding evicted_def by (subst b) simp
  have 2: "maxSize' c < cacheSize' c' + size' (snd (hd (evicted c c')))"
    if "evicted c c' \<noteq> []"
  proof -
    from that have "length (keys' c') < length (keys' c)"
      by (simp add: evicted_def)
    then show ?thesis
      using e by (simp add: evicted_def hd_drop_conv_nth)
  qed
  have 3: "cacheSize' c' \<le> maxSize' c"
    using a by (simp add: not_less)
  have 4: "cacheSize' c' + r = cacheSize' c"
    using c by simp
  show ?thesis
    using False 1 2 3 4 f g by (simp only: if_False) blast
qed

lemma insert_branch_capacity:
  assumes "(case found of Some it \<Rightarrow> insert_present it v s c
        | None \<Rightarrow> insert_absent k v s c) = Return u c1"
  shows "maxSize' c1 = maxSize' c \<and> elasticity' c1 = elasticity' c"
  using assms
  by (auto split: option.splits dest!: insert_present_Return insert_absent_Return)

lemma insert_op_resting_level:
  assumes "insert_op k v s ctx c = Return u c'" "maxSize' c \<noteq> 0"
  shows "maxSize' c' = maxSize' c \<and> elasticity' c' = elasticity' c \<and>
    (cacheSize' c' < maxSize' c + elasticity' c \<or> cacheSize' c' \<le> maxSize' c)"
proof -
  from insert_op_Return [OF assms(1)] obtain c1 r c2 x y where
    1: "(case cache' c k of Some it \<Rightarrow> insert_present it v s (c\<lparr>lock' := x\<rparr>)
        | None \<Rightarrow> insert_absent k v s (c\<lparr>lock' := x\<rparr>)) = Return () c1" and
    2: "prune c1 = Return r c2" and
    3: "c' = c2\<lparr>calls' := y, lock' := lock' c2 @ [UnlockCall]\<rparr>"
    by blast
  have m: "maxSize' c1 = maxSize' c" "elasticity' c1 = elasticity' c"
    using insert_branch_capacity [OF 1] by simp_all
  from prune_Return_cases [OF 2] have
    "maxSize' c2 = maxSize' c \<and> elasticity' c2 = elasticity' c \<and>
      (cacheSize' c2 < maxSize' c + elasticity' c \<or> cacheSize' c2 \<le> maxSize' c)"
    using assms(2) m by (auto split: if_splits)
  then show ?thesis
    unfolding 3 by simp
qed

lemma updateSize_resting_level:
  assumes "updateSize m e c = Return u c'" "m \<noteq> 0"
  shows "maxSize' c' = m \<and> elasticity' c' = e \<and> (cacheSize' c' < m + e \<or> cacheSize' c' \<le> m)"
proof -
  from assms(1) obtain r where "prune (c\<lparr>maxSize' := m, elasticity' := e\<rparr>) = Return r c'"
    by (auto simp: updateSize_def split: result.splits)
  from prune_Return_cases [OF this] show ?thesis
    using assms(2) by (auto split: if_splits)
qed

subsection \<open>Calls that return or throw, step by step\<close>

lemma Guard_left:
  "state_left (Guard body c) = Some c' \<Longrightarrow>
     \<exists>c''. state_left (body (c\<lparr>lock' := lock' c @ [LockCall]\<rparr>)) = Some c'' \<and>
       c' = c''\<lparr>lock' := lock' c'' @ [UnlockCall]\<rparr>"
  by (cases "body (c\<lparr>lock' := lock' c @ [LockCall]\<rparr>)") (auto simp: Guard_def unlock_def)

lemma call_remove_left:
  "state_left (call_remove e c) = Some c' \<Longrightarrow> \<exists>x. c' = c\<lparr>calls' := x\<rparr>"
proof (cases "removeCallback' c")
  case None
  then have "c' = c\<lparr>calls' := calls' c\<rparr>" if "state_left (call_remove e c) = Some c'"
    using that by (simp add: call_remove_def)
  then show "state_left (call_remove e c) = Some c' \<Longrightarrow> ?thesis"
    by blast
next
  case (Some cb)
  then show "state_left (call_remove e c) = Some c' \<Longrightarrow> ?thesis"
    by (auto simp: call_remove_def Let_def split: if_splits)
qed

lemma call_insert_left:
  "state_left (call_insert ctx c) = Some c' \<Longrightarrow> \<exists>x. c' = c\<lparr>calls' := x\<rparr>"
proof (cases "insertCallback' c")
  case None
  then have "c' = c\<lparr>calls' := calls' c\<rparr>" if "state_left (call_insert ctx c) = Some c'"
    using that by (simp add: call_insert_def)
  then show "state_left (call_insert ctx c) = Some c' \<Longrightarrow> ?thesis"
    by blast
next
  case (Some cb)
  then show "state_left (call_insert ctx c) = Some c' \<Longrightarrow> ?thesis"
    by (auto simp: call_insert_def Let_def split: if_splits)
qed

lemma call_remove_returns:
  "remove_callback_returns (removeCallback' c) \<Longrightarrow> \<exists>x. call_remove e c = Return () (c\<lparr>calls' := x\<rparr>)"
proof (cases "removeCallback' c")
  case None
  then have "call_remove e c = Return () (c\<lparr>calls' := calls' c\<rparr>)"
    by (simp add: call_remove_def)
  then show ?thesis
    by blast
next
  case (Some cb)
  assume "remove_callback_returns (removeCallback' c)"
  with Some have "cb (calls' c) (removeClientContext' c) e"
    by (simp add: remove_callback_returns_def)
  with Some show ?thesis
    by (auto simp: call_remove_def Let_def)
qed

lemma prune_step_never_throws:
  assumes "remove_callback_returns (removeCallback' c)"
  shows "prune_step c \<noteq> Throw e c'"
proof (cases "keys' c = []")
  case True
  then show ?thesis
    by (simp add: prune_step_def)
next
  case False
  from call_remove_returns [OF assms, of "snd (last (keys' c))"] obtain x where
    "call_remove (snd (last (keys' c))) c = Return () (c\<lparr>calls' := x\<rparr>)"
    by blast
  with False show ?thesis
    by (simp add: prune_step_def Let_def)
qed

lemma prune_step_callback:
  "prune_step c = Return s c' \<Longrightarrow> removeCallback' c' = removeCallback' c"
  by (auto dest!: prune_step_Return)

lemma prune_loop_never_throws:
  "remove_callback_returns (removeCallback' c) \<Longrightarrow> prune_loop r c \<noteq> Throw e c'"
proof (induction r c rule: prune_loop.induct)
  case (1 r c)
  show ?case
  proof (cases "maxSize' c < cacheSize' c")
    case False
    then show ?thesis
      by (simp add: prune_loop.simps [of r c])
  next
    case True
    show ?thesis
    proof (cases "prune_step c")
      case (Return s c1)
      then have "remove_callback_returns (removeCallback' c1)"
        using "1.prems" prune_step_callback [of c s c1] by simp
      with "1.IH" [OF True Return] show ?thesis
        using True Return by (simp add: prune_loop.simps [of r c])
    next
      case (Throw e1 c1)
      then show ?thesis
        using prune_step_never_throws [OF "1.prems"] by blast
    next
      case Undefined
      then show ?thesis
        using True by (simp add: prune_loop.simps [of r c])
    qed
  qed
qed

lemma prune_never_throws:
  "remove_callback_returns (removeCallback' c) \<Longrightarrow> prune c \<noteq> Throw e c'"
  using prune_loop_never_throws [of c 0 e c'] by (simp add: prune_def Let_def)


lemma insert_present_Throw: "insert_present it v s c = Throw e c' \<Longrightarrow> c' = c \<and> e = TooLargeSize"
  by (auto simp: insert_present_def Let_def split: option.splits if_splits)

lemma insert_absent_Throw: "insert_absent k v s c = Throw e c' \<Longrightarrow> c' = c \<and> e = TooLargeSize"
  by (auto simp: insert_absent_def Let_def split: if_splits)

lemma insert_op_left:
  assumes "state_left (insert_op k v s ctx c) = Some c'"
  shows "(\<exists>x. c' = c\<lparr>lock' := x\<rparr>) \<or>
    (\<exists>c1 c2 x y.
      (case cache' c k of Some it \<Rightarrow> insert_present it v s (c\<lparr>lock' := x\<rparr>)
        | None \<Rightarrow> insert_absent k v s (c\<lparr>lock' := x\<rparr>)) = Return () c1 \<and>
      state_left (prune c1) = Some c2 \<and> c' = c2\<lparr>calls' := y, lock' := lock' c2 @ [UnlockCall]\<rparr>)"
proof -
  let ?c = "c\<lparr>lock' := lock' c @ [LockCall]\<rparr>"
  let ?b = "case cache' c k of Some it \<Rightarrow> insert_present it v s ?c
        | None \<Rightarrow> insert_absent k v s ?c"
  from Guard_left [OF assms [unfolded insert_op_def]]
  obtain c'' where b: "state_left (case ?b of
       Undefined \<Rightarrow> Undefined
     | Throw e c' \<Rightarrow> Throw e c'
     | Return _ c' \<Rightarrow>
        (case prune c' of
           Undefined \<Rightarrow> Undefined
         | Throw e c'' \<Rightarrow> Throw e c''
         | Return _ c'' \<Rightarrow> call_insert ctx c'')) = Some c''"
    and c': "c' = c''\<lparr>lock' := lock' c'' @ [UnlockCall]\<rparr>"
    by auto
  show ?thesis
  proof (cases ?b)
    case Undefined
    with b show ?thesis by simp
  next
    case (Throw e c1)
    then have 1: "c1 = ?c"
      by (auto split: option.splits dest: insert_present_Throw insert_absent_Throw)
    from b Throw have 2: "c'' = c1"
      by simp
    have "c' = c\<lparr>lock' := lock' c @ [LockCall, UnlockCall]\<rparr>"
      unfolding c' 2 1 by simp
    then show ?thesis by blast
  next
    case (Return u c1)
    then have 1: "?b = Return () c1"
      by simp
    show ?thesis
    proof (cases "prune c1")
      case Undefined
      with b Return show ?thesis by simp
    next
      case (Throw e c2)
      with b Return have "c'' = c2"
        by simp
      then have "c' = c2\<lparr>calls' := calls' c2, lock' := lock' c2 @ [UnlockCall]\<rparr>"
        using c' by simp
      moreover have "state_left (prune c1) = Some c2"
        using Throw by simp
      ultimately show ?thesis
        using 1 by blast
    next
      case (Return r c2)
      with b 1 have "state_left (call_insert ctx c2) = Some c''"
        by simp
      from call_insert_left [OF this] obtain y where "c'' = c2\<lparr>calls' := y\<rparr>"
        by blast
      then have "c' = c2\<lparr>calls' := y, lock' := lock' c2 @ [UnlockCall]\<rparr>"
        using c' by simp
      moreover have "state_left (prune c1) = Some c2"
        using Return by simp
      ultimately show ?thesis
        using 1 by blast
    qed
  qed
qed

lemma updateSize_left:
  "state_left (updateSize m e c) = Some c' \<Longrightarrow>
     state_left (prune (c\<lparr>maxSize' := m, elasticity' := e\<rparr>)) = Some c'"
  by (cases "prune (c\<lparr>maxSize' := m, elasticity' := e\<rparr>)") (simp_all add: updateSize_def)

lemma get_left:
  assumes "state_left (get k c) = Some c'"
  shows "\<exists>x. c' = c\<lparr>lock' := x\<rparr> \<or>
    (\<exists>it. c' = (c\<lparr>keys' := splice_front it (keys' c)\<rparr>)\<lparr>lock' := x\<rparr>)"
  using Guard_left [OF assms [unfolded get_def]]
  by (auto split: option.splits)

lemma getCopy2_left:
  assumes "state_left (getCopy2 k c) = Some c'"
  shows "\<exists>x. c' = c\<lparr>lock' := x\<rparr> \<or>
    (\<exists>it. c' = (c\<lparr>keys' := splice_front it (keys' c)\<rparr>)\<lparr>lock' := x\<rparr>)"
  using Guard_left [OF assms [unfolded getCopy2_def]]
  by (auto split: option.splits)

lemma remove_op_left:
  assumes "state_left (remove_op k c) = Some c'"
  shows "(\<exists>x y. c' = c\<lparr>lock' := x, calls' := y\<rparr>) \<or>
    (\<exists>it e x y. cache' c k = Some it \<and> deref (keys' c) it = Some e \<and>
      c' = c\<lparr>lock' := x, calls' := y,
             keys' := erase it (keys' c), cache' := (cache' c)(k := None),
             cacheSize' := cacheSize' c - size' e\<rparr>)"
proof -
  let ?c = "c\<lparr>lock' := lock' c @ [LockCall]\<rparr>"
  let ?x = "lock' c @ [LockCall, UnlockCall]"
  from Guard_left [OF assms [unfolded remove_op_def]] obtain c'' where
    b: "state_left (case cache' ?c k of
       None \<Rightarrow> Return False ?c
     | Some it \<Rightarrow>
        (case deref (keys' ?c) it of
           None \<Rightarrow> Undefined
         | Some e \<Rightarrow>
            (case call_remove e ?c of
               Undefined \<Rightarrow> Undefined
             | Throw err c' \<Rightarrow> Throw err c'
             | Return _ c' \<Rightarrow>
                (let s = size' e
                 in Return True
                      (c'\<lparr>keys' := erase it (keys' c'),
                          cache' := (cache' c')(k := None),
                          cacheSize' := cacheSize' c' - s\<rparr>))))) = Some c''"
    and c': "c' = c''\<lparr>lock' := lock' c'' @ [UnlockCall]\<rparr>"
    by blast
  have [simp]: "cache' ?c k = cache' c k" "keys' ?c = keys' c"
    by simp_all
  show ?thesis
  proof (cases "cache' c k")
    case None
    with b have "c'' = ?c"
      by simp
    then have "c' = c\<lparr>lock' := ?x, calls' := calls' c\<rparr>"
      unfolding c' by simp
    then show ?thesis by blast
  next
    case (Some it)
    show ?thesis
    proof (cases "deref (keys' c) it")
      case None
      with b Some show ?thesis by simp
    next
      case e: (Some e)
      show ?thesis
      proof (cases "call_remove e ?c")
        case Undefined
        with b Some e show ?thesis by simp
      next
        case (Throw err c1)
        then have "state_left (call_remove e ?c) = Some c1"
          by simp
        from call_remove_left [OF this] obtain y where 1: "c1 = ?c\<lparr>calls' := y\<rparr>"
          by blast
        from b Some e Throw have 2: "c'' = c1"
          by simp
        have "c' = c\<lparr>lock' := ?x, calls' := y\<rparr>"
          unfolding c' 2 1 by simp
        then show ?thesis by blast
      next
        case (Return u c1)
        then have "state_left (call_remove e ?c) = Some c1"
          by simp
        from call_remove_left [OF this] obtain y where 1: "c1 = ?c\<lparr>calls' := y\<rparr>"
          by blast
        from b Some e Return have 2: "c'' = c1\<lparr>keys' := erase it (keys' c1),
            cache' := (cache' c1)(k := None), cacheSize' := cacheSize' c1 - size' e\<rparr>"
          by (simp add: Let_def)
        have "c' = c\<lparr>lock' := ?x, calls' := y, keys' := erase it (keys' c),
            cache' := (cache' c)(k := None), cacheSize' := cacheSize' c - size' e\<rparr>"
          unfolding c' 2 1 by simp
        with Some e show ?thesis by blast
      qed
    qed
  qed
qed

subsection \<open>Every state that can be reached is well-formed\<close>

lemma prune_step_left:
  assumes "state_left (prune_step c) = Some c'"
  shows "(\<exists>x. c' = c\<lparr>calls' := x\<rparr>) \<or> (\<exists>s. prune_step c = Return s c')"
proof (cases "prune_step c")
  case Undefined
  with assms show ?thesis by simp
next
  case (Return s c1)
  with assms show ?thesis by simp
next
  case (Throw e c1)
  with assms have 1: "c1 = c'"
    by simp
  have "keys' c \<noteq> []"
    using Throw by (auto simp: prune_step_def)
  with Throw 1 have "state_left (call_remove (snd (last (keys' c))) c) = Some c'"
    by (cases "call_remove (snd (last (keys' c))) c") (simp_all add: prune_step_def Let_def)
  from call_remove_left [OF this] show ?thesis
    by blast
qed

lemma wf_prune_step:
  assumes "wf c" "prune_step c = Return s c'"
  shows "wf c'"
proof -
  from prune_step_Return [OF assms(2)] obtain x where
    ne: "keys' c \<noteq> []" and
    c': "c' = c\<lparr>calls' := x, cache' := (cache' c)(key (snd (last (keys' c))) := None),
        keys' := butlast (keys' c), cacheSize' := cacheSize' c - s\<rparr>"
    by blast
  show ?thesis
    using assms(1) ne by (rule wf_butlast) (simp_all add: c')
qed

lemma wf_prune_loop:
  "wf c \<Longrightarrow> state_left (prune_loop r c) = Some c' \<Longrightarrow> wf c'"
proof (induction r c rule: prune_loop.induct)
  case (1 r c)
  show ?case
  proof (cases "maxSize' c < cacheSize' c")
    case False
    then show ?thesis
      using "1.prems" by (simp add: prune_loop.simps [of r c])
  next
    case True
    show ?thesis
    proof (cases "prune_step c")
      case Undefined
      then show ?thesis
        using "1.prems"(2) True by (simp add: prune_loop.simps [of r c])
    next
      case (Throw e c1)
      then have "state_left (prune_step c) = Some c'"
        using "1.prems"(2) True by (simp add: prune_loop.simps [of r c])
      from prune_step_left [OF this] Throw obtain x where "c' = c\<lparr>calls' := x\<rparr>"
        by auto
      then show ?thesis
        using "1.prems"(1) wf_same [of c' c] by simp
    next
      case (Return s c1)
      then have "state_left (prune_loop (r + s) c1) = Some c'"
        using "1.prems"(2) True by (simp add: prune_loop.simps [of r c])
      with "1.IH" [OF True Return wf_prune_step [OF "1.prems"(1) Return]] show ?thesis
        by simp
    qed
  qed
qed

lemma wf_prune: "wf c \<Longrightarrow> state_left (prune c) = Some c' \<Longrightarrow> wf c'"
  using wf_prune_loop [of c 0 c'] by (auto simp: prune_def Let_def split: if_splits)

lemma wf_insert_present:
  assumes "wf c" "insert_present it v s c = Return u c'"
  shows "wf c'"
proof -
  from insert_present_Return [OF assms(2)] have
    k: "keys' c' = splice_front it (assign it v s (keys' c))" "cache' c' = cache' c"
    by auto
  have "wf (c\<lparr>keys' := assign it v s (keys' c)\<rparr>)"
    using assms(1) by (rule wf_assign) simp_all
  then show ?thesis
    by (rule wf_splice) (simp_all add: k)
qed

lemma wf_insert_absent:
  assumes "wf c" "cache' c k = None" "insert_absent k v s c = Return u c'"
  shows "wf c'"
proof -
  from insert_absent_Return [OF assms(3)] have
    "keys' c' = emplace_front \<lparr>key = k, value' = v, size' = s\<rparr> (keys' c)"
    "cache' c' = (cache' c)(k \<mapsto> fresh (keys' c))"
    by auto
  with assms(1,2) show ?thesis
    by (rule wf_emplace)
qed

lemma wf_insert_op:
  assumes "wf c" "state_left (insert_op k v s ctx c) = Some c'"
  shows "wf c'"
  using insert_op_left [OF assms(2)]
proof (elim disjE exE conjE)
  fix x assume "c' = c\<lparr>lock' := x\<rparr>"
  then show ?thesis
    using assms(1) wf_same [of c' c] by simp
next
  fix c1 c2 x y
  assume 1: "(case cache' c k of Some it \<Rightarrow> insert_present it v s (c\<lparr>lock' := x\<rparr>)
        | None \<Rightarrow> insert_absent k v s (c\<lparr>lock' := x\<rparr>)) = Return () c1"
    and 2: "state_left (prune c1) = Some c2"
    and 3: "c' = c2\<lparr>calls' := y, lock' := lock' c2 @ [UnlockCall]\<rparr>"
  have w: "wf (c\<lparr>lock' := x\<rparr>)"
    using assms(1) wf_same [of "c\<lparr>lock' := x\<rparr>" c] by simp
  have "wf c1"
  proof (cases "cache' c k")
    case None
    with 1 show ?thesis
      using wf_insert_absent [OF w, of k v s "()" c1] by simp
  next
    case (Some it)
    with 1 show ?thesis
      using wf_insert_present [OF w, of it v s "()" c1] by simp
  qed
  then have "wf c2"
    using 2 by (rule wf_prune)
  then show ?thesis
    using wf_same [of c' c2] by (simp add: 3)
qed

lemma wf_updateSize:
  assumes "wf c" "state_left (updateSize m e c) = Some c'"
  shows "wf c'"
proof -
  have "wf (c\<lparr>maxSize' := m, elasticity' := e\<rparr>)"
    using assms(1) wf_same [of "c\<lparr>maxSize' := m, elasticity' := e\<rparr>" c] by simp
  then show ?thesis
    using updateSize_left [OF assms(2)] by (rule wf_prune)
qed

lemma wf_spliced:
  assumes "wf c" "c' = c\<lparr>lock' := x\<rparr> \<or> (\<exists>it. c' = (c\<lparr>keys' := splice_front it (keys' c)\<rparr>)\<lparr>lock' := x\<rparr>)"
  shows "wf c'"
  using assms(2)
proof (elim disjE exE)
  assume "c' = c\<lparr>lock' := x\<rparr>"
  then show ?thesis
    using assms(1) wf_same [of c' c] by simp
next
  fix it assume "c' = (c\<lparr>keys' := splice_front it (keys' c)\<rparr>)\<lparr>lock' := x\<rparr>"
  then have "keys' c' = splice_front it (keys' c)" "cache' c' = cache' c"
    by simp_all
  with assms(1) show ?thesis
    by (rule wf_splice)
qed

lemma wf_get: "wf c \<Longrightarrow> state_left (get k c) = Some c' \<Longrightarrow> wf c'"
  using get_left [of k c c'] wf_spliced [of c c'] by blast

lemma wf_getCopy2: "wf c \<Longrightarrow> state_left (getCopy2 k c) = Some c' \<Longrightarrow> wf c'"
  using getCopy2_left [of k c c'] wf_spliced [of c c'] by blast

lemma wf_remove_op:
  assumes "wf c" "state_left (remove_op k c) = Some c'"
  shows "wf c'"
  using remove_op_left [OF assms(2)]
proof (elim disjE exE conjE)
  fix x y assume "c' = c\<lparr>lock' := x, calls' := y\<rparr>"
  then show ?thesis
    using assms(1) wf_same [of c' c] by simp
next
  fix it e x y
  assume "cache' c k = Some it" and
    "c' = c\<lparr>lock' := x, calls' := y, keys' := erase it (keys' c),
      cache' := (cache' c)(k := None), cacheSize' := cacheSize' c - size' e\<rparr>"
  then show ?thesis
    using assms(1) by (intro wf_erase [of c k it c']) simp_all
qed

lemma Guard_reader_left:
  "state_left (Guard (\<lambda>c. Return (f c) c) c) = Some (c\<lparr>lock' := lock' c @ [LockCall, UnlockCall]\<rparr>)"
  by (simp add: Guard_reader)

lemma wf_attempt:
  assumes "wf c" "attempt x c = Some c'"
  shows "wf c'"
proof (cases x)
  case (UpdateSize m e)
  then show ?thesis using assms wf_updateSize by simp
next
  case (Insert k v s ctx)
  then show ?thesis using assms wf_insert_op by simp
next
  case (Insert3 k v s)
  then show ?thesis using assms wf_insert_op [of c k v s 0 c'] by (simp add: insert3_def)
next
  case (Get k)
  then show ?thesis using assms wf_get by simp
next
  case (GetCopy k)
  then show ?thesis using assms wf_get [of c k c'] by (simp add: getCopy_def)
next
  case (GetCopy2 k)
  then show ?thesis using assms wf_getCopy2 by simp
next
  case (Remove k)
  then show ?thesis using assms wf_remove_op by simp
next
  case Clear
  then have "keys' c' = []" "cache' c' = Map.empty"
    using assms(2) by (auto simp: clear_returns)
  then show ?thesis by (rule wf_empty)
qed (use assms wf_same [of c' c] in \<open>auto simp: size_op_def freeSize_def empty_op_def
      contains_def cwalk_def Guard_reader_left\<close>)

lemma wf_attempt_all: "wf c \<Longrightarrow> attempt_all ops c = Some c' \<Longrightarrow> wf c'"
proof (induction ops arbitrary: c)
  case Nil
  then show ?case by simp
next
  case (Cons x ops)
  from Cons.prems(2) obtain c1 where 1: "attempt x c = Some c1" and 2: "attempt_all ops c1 = Some c'"
    by (auto split: option.splits)
  from Cons.IH [OF wf_attempt [OF Cons.prems(1) 1] 2] show ?case .
qed

lemma wf_new: "wf (LRUCache m e icb rcb ic rc)"
  by (simp add: LRUCache_def wf_empty)

lemma wf_reachable: "attempt_all ops (LRUCache m e icb rcb ic rc) = Some c \<Longrightarrow> wf c"
  using wf_new by (rule wf_attempt_all)

subsection \<open>The invariant is kept, by return and by exception\<close>

lemma invariant_same:
  "keys' c' = keys' c \<Longrightarrow> cache' c' = cache' c \<Longrightarrow> cacheSize' c' = cacheSize' c \<Longrightarrow>
   maxSize' c' = maxSize' c \<Longrightarrow> elasticity' c' = elasticity' c \<Longrightarrow>
   removeCallback' c' = removeCallback' c \<Longrightarrow> invariant c' = invariant c"
  using consistent_same [of c' c] within_limit_same [of c' c] by (simp add: invariant_def)

lemma prune_loop_frame:
  "state_left (prune_loop r c) = Some c' \<Longrightarrow>
     \<exists>x i l z. c' = c\<lparr>calls' := x, cache' := i, keys' := l, cacheSize' := z\<rparr>"
proof (induction r c rule: prune_loop.induct)
  case (1 r c)
  have same: "c = c\<lparr>calls' := calls' c, cache' := cache' c, keys' := keys' c,
      cacheSize' := cacheSize' c\<rparr>"
    by simp
  show ?case
  proof (cases "maxSize' c < cacheSize' c")
    case False
    then have "c' = c"
      using "1.prems" by (simp add: prune_loop.simps [of r c])
    with same show ?thesis
      by metis
  next
    case True
    show ?thesis
    proof (cases "prune_step c")
      case Undefined
      then show ?thesis
        using "1.prems" True by (simp add: prune_loop.simps [of r c])
    next
      case (Throw e c1)
      then have "state_left (prune_step c) = Some c'"
        using "1.prems" True by (simp add: prune_loop.simps [of r c])
      from prune_step_left [OF this] Throw obtain x where "c' = c\<lparr>calls' := x\<rparr>"
        by auto
      then have "c' = c\<lparr>calls' := x, cache' := cache' c, keys' := keys' c,
          cacheSize' := cacheSize' c\<rparr>"
        by simp
      then show ?thesis
        by blast
    next
      case (Return s c1)
      then have "state_left (prune_loop (r + s) c1) = Some c'"
        using "1.prems" True by (simp add: prune_loop.simps [of r c])
      from "1.IH" [OF True Return this] obtain x i l z where
        c': "c' = c1\<lparr>calls' := x, cache' := i, keys' := l, cacheSize' := z\<rparr>"
        by blast
      from prune_step_Return [OF Return] obtain x1 where
        "c1 = c\<lparr>calls' := x1, cache' := (cache' c)(key (snd (last (keys' c))) := None),
          keys' := butlast (keys' c), cacheSize' := cacheSize' c - s\<rparr>"
        by blast
      then have "c' = c\<lparr>calls' := x, cache' := i, keys' := l, cacheSize' := z\<rparr>"
        unfolding c' by simp
      then show ?thesis
        by blast
    qed
  qed
qed

lemma prune_frame:
  assumes "state_left (prune c) = Some c'"
  shows "\<exists>x i l z. c' = c\<lparr>calls' := x, cache' := i, keys' := l, cacheSize' := z\<rparr>"
proof (cases "maxSize' c = 0 \<or> cacheSize' c < maxSize' c + elasticity' c")
  case True
  then have "c' = c"
    using assms by (auto simp: prune_def)
  then have "c' = c\<lparr>calls' := calls' c, cache' := cache' c, keys' := keys' c,
      cacheSize' := cacheSize' c\<rparr>"
    by simp
  then show ?thesis
    by blast
next
  case False
  then have "state_left (prune_loop 0 c) = Some c'"
    using assms by (simp add: prune_def)
  then show ?thesis
    by (rule prune_loop_frame)
qed











subsection \<open>Without an insert callback every call returns or throws\<close>













subsection \<open>When the eviction pass, \<open>updateSize\<close> and \<open>insert\<close> return\<close>

lemma prune_returns_quiet:
  assumes "consistent c" "remove_callback_returns (removeCallback' c)"
  shows "\<exists>r c'. prune c = Return r c'"
  using prune_defined [OF assms(1)] prune_never_throws [OF assms(2)]
  by (cases "prune c") auto

lemma updateSize_returns:
  assumes "consistent c" "remove_callback_returns (removeCallback' c)"
  shows "\<exists>c'. updateSize m e c = Return () c'"
proof -
  let ?c = "c\<lparr>maxSize' := m, elasticity' := e\<rparr>"
  have "consistent ?c" "remove_callback_returns (removeCallback' ?c)"
    using assms by (simp_all add: consistent_frame)
  from prune_returns_quiet [OF this] show ?thesis
    by (auto simp: updateSize_def)
qed

lemma insert_op_returns:
  assumes "invariant c" "insertCallback' c = None" "cache' c k = None"
    "\<not> maxSize' c + elasticity' c < s"
  shows "\<exists>c'. insert_op k v s ctx c = Return () c'"
proof -
  let ?c = "c\<lparr>lock' := lock' c @ [LockCall]\<rparr>"
  have i: "invariant ?c"
    using assms(1) invariant_same [of ?c c] by simp
  then have c: "consistent ?c" "within_limit ?c"
    by (simp_all add: invariant_def)
  obtain c1 where 1: "insert_absent k v s ?c = Return () c1"
    using assms(4) by (simp add: insert_absent_def Let_def)
  have "consistent c1"
    using insert_absent_invariant [OF c _ 1] assms(3) by simp
  moreover have cb: "removeCallback' c1 = removeCallback' c" "insertCallback' c1 = None"
    using insert_absent_Return [OF 1] assms(2) by auto
  then have "remove_callback_returns (removeCallback' c1)"
    using assms(1) by (simp add: invariant_def)
  ultimately obtain r c2 where 2: "prune c1 = Return r c2"
    using prune_returns_quiet by blast
  then have "state_left (prune c1) = Some c2"
    by simp
  from prune_frame [OF this] cb(2) have "insertCallback' c2 = None"
    by auto
  then have 3: "call_insert ctx c2 = Return () c2"
    by (simp add: call_insert_def)
  show ?thesis
    using assms(3) 1 2 3 by (simp add: insert_op_def Guard_def unlock_def)
qed

subsection \<open>The eviction pass with no soft limit\<close>

text \<open>
  With \<open>maxSize_ == 0\<close> the eviction pass returns at once, whatever \<open>cacheSize_\<close>
  is: it removes nothing and leaves the state as it is. So an \<open>insert\<close> that returns on
  such a cache has kept every key that was in the recency list, and the list has not
  become shorter.
\<close>

lemma prune_disabled:
  "maxSize' c = 0 \<Longrightarrow>
     prune c = Return 0 c \<and>
     (\<forall>k v s ctx c'. insert_op k v s ctx c = Return () c' \<longrightarrow>
        set (key_order c) \<subseteq> set (key_order c') \<and> length (keys' c) \<le> length (keys' c'))"
proof (intro conjI allI impI)
  assume m: "maxSize' c = 0"
  then show "prune c = Return 0 c"
    by (simp add: prune_def)
  fix k v s ctx c'
  assume i: "insert_op k v s ctx c = Return () c'"
  have same: "set (map (\<lambda>n. key (snd n)) (splice_front it (assign it v s l))) =
      set (map (\<lambda>n. key (snd n)) l)" for it and l :: "('a, 'b) list_type"
    unfolding set_map set_splice_front by (simp flip: set_map)
  show "set (key_order c) \<subseteq> set (key_order c')"
    using i m
    by (auto simp: insert_op_def insert_present_def insert_absent_def Guard_def unlock_def
          prune_def call_insert_def Let_def key_order_def emplace_front_def same
        simp del: set_map split: option.splits if_splits result.splits)
  show "length (keys' c) \<le> length (keys' c')"
    using i m
    by (auto simp: insert_op_def insert_present_def insert_absent_def Guard_def unlock_def
          prune_def call_insert_def Let_def emplace_front_def split: option.splits if_splits result.splits)
qed

text \<open>
  The size check of \<open>insert\<close> for a new key is the same as with a soft limit, though:
  a size above \<open>elasticity_\<close> is refused.
\<close>

lemma unbounded_entry_limit:
  assumes "maxSize' c = 0" "cache' c k = None" "elasticity' c < s"
  shows "insert_op k v s ctx c = Throw TooLargeSize (c\<lparr>lock' := lock' c @ [LockCall, UnlockCall]\<rparr>)"
  using assms by (simp add: insert_op_def insert_absent_def Guard_def unlock_def)

text \<open>
  C9 says that a cache with \<open>maxSize_ == 0\<close> is unbounded, as the comment of the
  constructor does (\<open>set maxSize = 0 for an unbounded cache\<close>). The eviction pass is
  indeed disabled, but \<open>insert\<close> refuses a new entry whose size is above
  \<open>elasticity_\<close>: with \<open>elasticity_ = 10\<close> an entry of size 11, and with
  \<open>elasticity_ = 0\<close> an entry of size 1.
\<close>

theorem unbounded_cache_refuses_entry:
  "thrown (insert3 ''a'' (1::nat) 11 (LRUCache 0 10 None None 0 0)) = Some TooLargeSize \<and>
   thrown (insert3 ''a'' (1::nat) 1 (LRUCache 0 0 None None 0 0)) = Some TooLargeSize"
  by (simp add: call_defs)

subsection \<open>The insert callback after the eviction pass\<close>

text \<open>
  C8 says that the recency list is never empty when \<open>insert\<close> hands \<open>keys_.front()\<close> to
  the insert callback. On a cache with \<open>maxSize_ = 3\<close>, \<open>elasticity_ = 2\<close> and an insert
  callback, \<open>insert("a", 1, 5)\<close> passes the size check (5 is not above 3 + 2), the
  eviction pass then evicts the entry just inserted (5 is above 3), and \<open>front()\<close> is
  called on the empty list.
\<close>

theorem insert_callback_on_empty_list:
  "insert3 ''a'' (1::nat) 5 (LRUCache 3 2 (Some (\<lambda>h p e. True)) None 0 0) = Undefined"
  by (simp add: call_defs)

subsection \<open>\<open>clear\<close>\<close>

text \<open>
  \<open>clear\<close> empties the index and the list, calls no callback and leaves \<open>cacheSize_\<close>
  as it was, so \<open>size()\<close> afterwards still returns the old weight.
\<close>

lemma empty_after_clear: "returned (and_then (clear c) empty_op) = Some True"
  by (simp add: clear_returns and_then_def empty_op_def Guard_def unlock_def)

lemma size_after_clear: "returned (and_then (clear c) size_op) = Some (cacheSize' c)"
  by (simp add: clear_returns and_then_def size_op_def Guard_def unlock_def)

text \<open>
  C2 says that \<open>size()\<close> returns 0 after \<open>clear()\<close>. After \<open>insert("a", 1, 5)\<close> on a
  new cache and \<open>clear()\<close>, the cache is empty, no callback has been called, and
  \<open>size()\<close> returns 5.
\<close>

theorem size_after_clear_is_stale:
  "returned (and_then (and_then (insert3 ''a'' (1::nat) 5 (LRUCache 64 10 None None 0 0))
      clear) size_op) = Some 5 \<and>
   returned (and_then (and_then (insert3 ''a'' (1::nat) 5 (LRUCache 64 10 None None 0 0))
      clear) empty_op) = Some True"
  by (simp add: call_defs)

subsection \<open>\<open>insert\<close> of a present key with a smaller size\<close>

text \<open>
  C4 says that an \<open>insert\<close> that lowers the size of a present key succeeds when the
  weight is within the hard limit. \<open>size_diff\<close> is unsigned: for 3 after 5 it is
  \<open>2^64 - 2\<close>, which is above \<open>maxSize_ + elasticity_ - cacheSize_ = 55\<close>, and the
  call throws \<open>TooLargeSize\<close>.
\<close>

theorem insert_smaller_size_throws:
  "thrown (and_then (insert3 ''hello'' (1::nat) 5 (LRUCache 50 10 None None 0 0))
      (insert3 ''hello'' 1 3)) = Some TooLargeSize"
  by (simp add: call_defs)

subsection \<open>The lock\<close>

text \<open>
  C10 says that every public operation, \<open>updateSize\<close> included, holds the lock while
  it runs. \<open>updateSize\<close> has no guard: after \<open>insert("a", 1, 5)\<close> and
  \<open>updateSize(3, 0)\<close> the entry has been evicted, and the only calls on the lock are
  those of \<open>insert\<close>.
\<close>

theorem updateSize_takes_no_lock:
  "map_option (\<lambda>c. (lock' c, key_order c))
     (state_of (and_then (insert3 ''a'' (1::nat) 5 (LRUCache 64 10 None None 0 0))
        (updateSize 3 0))) = Some ([LockCall, UnlockCall], [])"
  by (simp add: call_defs)

subsection \<open>The order of eviction\<close>

text \<open>
  C5 as stated: after the inserts of A, B, C, D and E, of size 1 each, into a cache with
  \<open>maxSize_ = 3\<close> and \<open>elasticity_ = 0\<close>, the keys are B, C, D and E. They are not.
\<close>

theorem eviction_order_counterexample:
  "map_option (\<lambda>c. set (key_order c))
     (run [Insert3 ''A'' (0::nat) 1, Insert3 ''B'' 0 1, Insert3 ''C'' 0 1, Insert3 ''D'' 0 1,
           Insert3 ''E'' 0 1] (LRUCache 3 0 None None 0 0))
   \<noteq> Some {''B'', ''C'', ''D'', ''E''}"
proof -
  have "map_option (\<lambda>c. set (key_order c))
     (run [Insert3 ''A'' (0::nat) 1, Insert3 ''B'' 0 1, Insert3 ''C'' 0 1, Insert3 ''D'' 0 1,
           Insert3 ''E'' 0 1] (LRUCache 3 0 None None 0 0)) = Some {''E'', ''D'', ''C''}"
    by (simp add: call_defs)
  moreover have "''B'' \<notin> {''E'', ''D'', ''C''}"
    by simp
  ultimately show ?thesis
    by (metis insertI1 option.inject)
qed

text \<open>
  C5, amended. With \<open>maxSize_ = 3\<close>, \<open>elasticity_ = 0\<close> and no callbacks, the inserts of
  the distinct keys a, b, c, d, of size 1 each, leave d, c, b in the list (the insert of d
  has evicted a, the least recently used), and the insert of e then evicts exactly b, the
  least recently used of the three: the list is e, d, c, the index holds these three keys
  and the weight is 3.
\<close>

theorem eviction_order:
  assumes "distinct [a, b, c, d, e]"
  shows
    "map_option key_order
       (run [Insert3 a va 1, Insert3 b vb 1, Insert3 c vc 1, Insert3 d vd 1]
          (LRUCache 3 0 None None ic rc)) = Some [d, c, b] \<and>
     map_option (\<lambda>s. (key_order s, dom (cache' s), cacheSize' s))
       (run [Insert3 a va 1, Insert3 b vb 1, Insert3 c vc 1, Insert3 d vd 1, Insert3 e ve 1]
          (LRUCache 3 0 None None ic rc)) = Some ([e, d, c], {c, d, e}, 3)"
proof -
  have ne: "a \<noteq> b" "a \<noteq> c" "a \<noteq> d" "a \<noteq> e" "b \<noteq> c" "b \<noteq> d" "b \<noteq> e" "c \<noteq> d" "c \<noteq> e"
    "d \<noteq> e" "b \<noteq> a" "c \<noteq> a" "d \<noteq> a" "e \<noteq> a" "c \<noteq> b" "d \<noteq> b" "e \<noteq> b" "d \<noteq> c" "e \<noteq> c"
    "e \<noteq> d"
    using assms by auto
  have set3: "insert e (insert d {c}) = {c, d, e}"
    by blast
  show ?thesis
    by (simp add: call_defs ne set3)
qed

theorem eviction_order_witness:
  "distinct [''A'', ''B'', ''C'', ''D'', ''E''] \<and>
   map_option key_order
     (run [Insert3 ''A'' (10::nat) 1, Insert3 ''B'' 20 1, Insert3 ''C'' 30 1,
           Insert3 ''D'' 40 1, Insert3 ''E'' 50 1] (LRUCache 3 0 None None 0 0))
   = Some [''E'', ''D'', ''C'']"
  using eviction_order [where a = "''A''" and b = "''B''" and c = "''C''" and d = "''D''"
      and e = "''E''" and va = "10::nat" and vb = 20 and vc = 30 and vd = 40 and ve = 50
      and ic = 0 and rc = 0]
  by (simp add: call_defs)

subsection \<open>The weight of the cache\<close>




subsection \<open>The eviction pass\<close>

text \<open>
  C3 as stated: after an \<open>insert\<close> or an \<open>updateSize\<close> that returns, with a soft limit
  other than 0, \<open>cacheSize_\<close> is at most \<open>maxSize_\<close>. With \<open>maxSize_ = 3\<close> and
  \<open>elasticity_ = 10\<close>, \<open>insert("a", 1, 5)\<close> returns with \<open>cacheSize_ = 5\<close>, and
  \<open>updateSize(4, 10)\<close> after it leaves the 5 as well: the eviction pass returns at once
  while \<open>cacheSize_\<close> is below \<open>maxSize_ + elasticity_\<close>.
\<close>

theorem eviction_pass_counterexample:
  "map_option (\<lambda>c. cacheSize' c \<le> maxSize' c)
     (state_of (insert3 ''a'' (1::nat) 5 (LRUCache 3 10 None None 0 0))) = Some False \<and>
   map_option (\<lambda>c. cacheSize' c \<le> maxSize' c)
     (state_of (and_then (insert3 ''a'' (1::nat) 5 (LRUCache 3 10 None None 0 0))
        (updateSize 4 10))) = Some False"
  by (simp add: call_defs)

text \<open>
  C3, amended. The eviction pass runs after every \<open>insert\<close> and after \<open>updateSize\<close>.
  It does nothing when \<open>maxSize_\<close> is 0 or \<open>cacheSize_\<close> is below
  \<open>maxSize_ + elasticity_\<close> (a sum in \<open>size_t\<close>). Otherwise, while \<open>cacheSize_\<close> is
  above \<open>maxSize_\<close>, it evicts the entry at the tail of the list, and it goes on until
  \<open>cacheSize_\<close> is at most \<open>maxSize_\<close>: when it returns, the list has lost entries at
  its tail only, \<open>cacheSize_\<close> is at most \<open>maxSize_\<close> and was above it before the
  last eviction, it has gone down by the value returned, and the keys of the evicted
  entries have left the index. So after an \<open>insert\<close> or an \<open>updateSize\<close> that returns
  with a soft limit other than 0, \<open>cacheSize_\<close> is below \<open>maxSize_ + elasticity_\<close> or
  at most \<open>maxSize_\<close>.

  These calls do return: the pass and \<open>updateSize\<close> on a consistent state whose remove
  callback never throws; \<open>insert\<close> of a new key of a size within the hard limit on a
  state that satisfies \<open>invariant\<close> and has no insert callback.
\<close>

theorem eviction_pass:
  "(prune c = Return r c1 \<longrightarrow>
      (if maxSize' c = 0 \<or> cacheSize' c < maxSize' c + elasticity' c then c1 = c \<and> r = 0
       else cacheSize' c1 \<le> maxSize' c \<and>
            keys' c = keys' c1 @ evicted c c1 \<and>
            cacheSize' c1 + r = cacheSize' c \<and>
            cache' c1 = (\<lambda>k. if k \<in> (\<lambda>n. key (snd n)) ` set (evicted c c1) then None
               else cache' c k) \<and>
            (evicted c c1 \<noteq> [] \<longrightarrow>
               maxSize' c < cacheSize' c1 + size' (snd (hd (evicted c c1)))) \<and>
            maxSize' c1 = maxSize' c \<and> elasticity' c1 = elasticity' c)) \<and>
   (insert_op k v s ctx c = Return u c2 \<longrightarrow> maxSize' c \<noteq> 0 \<longrightarrow>
      maxSize' c2 = maxSize' c \<and> elasticity' c2 = elasticity' c \<and>
      (cacheSize' c2 < maxSize' c + elasticity' c \<or> cacheSize' c2 \<le> maxSize' c)) \<and>
   (updateSize m e c = Return u c3 \<longrightarrow> m \<noteq> 0 \<longrightarrow>
      maxSize' c3 = m \<and> elasticity' c3 = e \<and> (cacheSize' c3 < m + e \<or> cacheSize' c3 \<le> m)) \<and>
   (consistent c \<longrightarrow> remove_callback_returns (removeCallback' c) \<longrightarrow>
      returned (prune c) \<noteq> None \<and> returned (updateSize m e c) = Some ()) \<and>
   (invariant c \<longrightarrow> insertCallback' c = None \<longrightarrow> cache' c k = None \<longrightarrow>
      \<not> maxSize' c + elasticity' c < s \<longrightarrow> returned (insert_op k v s ctx c) = Some ())"
proof (intro conjI impI)
  show "if maxSize' c = 0 \<or> cacheSize' c < maxSize' c + elasticity' c then c1 = c \<and> r = 0
       else cacheSize' c1 \<le> maxSize' c \<and>
            keys' c = keys' c1 @ evicted c c1 \<and>
            cacheSize' c1 + r = cacheSize' c \<and>
            cache' c1 = (\<lambda>k. if k \<in> (\<lambda>n. key (snd n)) ` set (evicted c c1) then None
               else cache' c k) \<and>
            (evicted c c1 \<noteq> [] \<longrightarrow>
               maxSize' c < cacheSize' c1 + size' (snd (hd (evicted c c1)))) \<and>
            maxSize' c1 = maxSize' c \<and> elasticity' c1 = elasticity' c"
    if "prune c = Return r c1"
    using that by (rule prune_Return_cases)
next
  assume "insert_op k v s ctx c = Return u c2" "maxSize' c \<noteq> 0"
  from insert_op_resting_level [OF this]
  show "maxSize' c2 = maxSize' c" "elasticity' c2 = elasticity' c"
    "cacheSize' c2 < maxSize' c + elasticity' c \<or> cacheSize' c2 \<le> maxSize' c"
    by blast+
next
  assume "updateSize m e c = Return u c3" "m \<noteq> 0"
  from updateSize_resting_level [OF this]
  show "maxSize' c3 = m" "elasticity' c3 = e" "cacheSize' c3 < m + e \<or> cacheSize' c3 \<le> m"
    by blast+
next
  assume a: "consistent c" "remove_callback_returns (removeCallback' c)"
  from prune_returns_quiet [OF a] show "returned (prune c) \<noteq> None"
    by auto
  from updateSize_returns [OF a, of m e] show "returned (updateSize m e c) = Some ()"
    by auto
next
  assume "invariant c" "insertCallback' c = None" "cache' c k = None"
    "\<not> maxSize' c + elasticity' c < s"
  from insert_op_returns [OF this, of v ctx] show "returned (insert_op k v s ctx c) = Some ()"
    by auto
qed

theorem eviction_pass_witness:
  "(let c = (LRUCache 5 2 None None 0 0)\<lparr>cache' := [''a'' \<mapsto> 0, ''b'' \<mapsto> 1],
       keys' := [(1, \<lparr>key = ''b'', value' = 2::nat, size' = 4\<rparr>),
                 (0, \<lparr>key = ''a'', value' = 1, size' = 3\<rparr>)], cacheSize' := 7\<rparr>;
        c1 = (LRUCache 5 2 None None 0 0)\<lparr>cache' := [''b'' \<mapsto> 1],
       keys' := [(1, \<lparr>key = ''b'', value' = 2::nat, size' = 4\<rparr>)], cacheSize' := 4\<rparr>;
        c2 = (LRUCache 5 2 None None 0 0)\<lparr>lock' := [LockCall, UnlockCall],
       cache' := [''c'' \<mapsto> Suc (Suc 0)],
       keys' := [(Suc (Suc 0), \<lparr>key = ''c'', value' = 3::nat, size' = 2\<rparr>)], cacheSize' := 2\<rparr>;
        c3 = (LRUCache 6 1 None None 0 0)\<lparr>cache' := [''b'' \<mapsto> 1],
       keys' := [(1, \<lparr>key = ''b'', value' = 2::nat, size' = 4\<rparr>)], cacheSize' := 4\<rparr>
    in prune c = Return 3 c1 \<and>
       \<not> (maxSize' c = 0 \<or> cacheSize' c < maxSize' c + elasticity' c) \<and>
       evicted c c1 = [(0, \<lparr>key = ''a'', value' = 1, size' = 3\<rparr>)] \<and>
       insert_op ''c'' 3 2 0 c = Return () c2 \<and> maxSize' c \<noteq> 0 \<and>
       updateSize 6 1 c = Return () c3 \<and> (6::size_t) \<noteq> 0 \<and>
       consistent c \<and> remove_callback_returns (removeCallback' c) \<and>
       invariant c \<and> insertCallback' c = None \<and> cache' c ''c'' = None \<and>
       \<not> maxSize' c + elasticity' c < 2 \<and>
       cacheSize' c1 \<le> maxSize' c \<and> cacheSize' c2 \<le> maxSize' c \<and> cacheSize' c3 \<le> 6)"
proof -
  let ?c = "(LRUCache 5 2 None None 0 0)\<lparr>cache' := [''a'' \<mapsto> 0, ''b'' \<mapsto> 1],
       keys' := [(1, \<lparr>key = ''b'', value' = 2::nat, size' = 4\<rparr>),
                 (0, \<lparr>key = ''a'', value' = 1, size' = 3\<rparr>)], cacheSize' := 7\<rparr>"
  let ?c1 = "(LRUCache 5 2 None None 0 0)\<lparr>cache' := [''b'' \<mapsto> 1],
       keys' := [(1, \<lparr>key = ''b'', value' = 2::nat, size' = 4\<rparr>)], cacheSize' := 4\<rparr>"
  let ?c2 = "(LRUCache 5 2 None None 0 0)\<lparr>lock' := [LockCall, UnlockCall],
       cache' := [''c'' \<mapsto> Suc (Suc 0)],
       keys' := [(Suc (Suc 0), \<lparr>key = ''c'', value' = 3::nat, size' = 2\<rparr>)], cacheSize' := 2\<rparr>"
  let ?c3 = "(LRUCache 6 1 None None 0 0)\<lparr>cache' := [''b'' \<mapsto> 1],
       keys' := [(1, \<lparr>key = ''b'', value' = 2::nat, size' = 4\<rparr>)], cacheSize' := 4\<rparr>"
  have p: "prune ?c = Return 3 ?c1"
    by (simp add: call_defs fun_upd_twist)
  have n: "\<not> (maxSize' ?c = 0 \<or> cacheSize' ?c < maxSize' ?c + elasticity' ?c)"
    by (simp add: LRUCache_def)
  have e: "evicted ?c ?c1 = [(0, \<lparr>key = ''a'', value' = 1, size' = 3\<rparr>)]"
    by (simp add: evicted_def LRUCache_def)
  have i: "insert_op ''c'' 3 2 0 ?c = Return () ?c2"
    by (simp add: call_defs fun_upd_twist)
  have u: "updateSize 6 1 ?c = Return () ?c3"
    by (simp add: call_defs fun_upd_twist)
  have k: "consistent ?c"
    by (simp add: consistent_def wf_def weight_ok_def weight_def key_order_def LRUCache_def)
  have q: "remove_callback_returns (removeCallback' ?c)" "insertCallback' ?c = None"
    "cache' ?c ''c'' = None" "\<not> maxSize' ?c + elasticity' ?c < 2"
    by (simp_all add: remove_callback_returns_def LRUCache_def)
  have v: "invariant ?c"
    using k q(1) by (simp add: invariant_def within_limit_def capacity_ok_def LRUCache_def)
  have m: "maxSize' ?c \<noteq> 0" "(6::size_t) \<noteq> 0"
    by (simp_all add: LRUCache_def)
  have "cacheSize' ?c1 \<le> maxSize' ?c \<and> cacheSize' ?c2 \<le> maxSize' ?c \<and> cacheSize' ?c3 \<le> 6"
    using eviction_pass [of ?c 3 ?c1 "''c''" 3 2 0 "()" ?c2 6 1 ?c3] p n i u m
    by (simp add: LRUCache_def)
  with p n e i u k q v m show ?thesis
    unfolding Let_def by blast
qed

lemma filter_same_node:
  "distinct (map fst l) \<Longrightarrow> deref l it = Some e \<Longrightarrow> filter (\<lambda>n. fst n = it) l = [(it, e)]"
proof (induction l)
  case Nil
  then show ?case by (simp add: deref_def)
next
  case (Cons n l)
  show ?case
  proof (cases "fst n = it")
    case True
    then have "it \<notin> fst ` set l" "n = (it, e)"
      using Cons.prems by (auto simp: deref_def)
    then have "filter (\<lambda>n. fst n = it) l = []"
      by (auto simp: filter_empty_conv)
    with True \<open>n = (it, e)\<close> show ?thesis
      by simp
  next
    case False
    with Cons show ?thesis
      by (simp add: deref_def)
  qed
qed

lemma splice_front_node:
  "distinct (map fst l) \<Longrightarrow> deref l it = Some e \<Longrightarrow> splice_front it l = (it, e) # erase it l"
  by (simp add: splice_front_def erase_def filter_same_node)

lemma key_order_erase:
  assumes "wf c" "cache' c k = Some it"
  shows "map (\<lambda>n. key (snd n)) (erase it (keys' c)) = filter (\<lambda>x. x \<noteq> k) (key_order c)"
proof -
  obtain e where e: "key e = k" "(it, e) \<in> set (keys' c)"
    using wf_lookup [OF assms] by blast
  have d: "distinct (map fst (keys' c))" "distinct (map (\<lambda>n. key (snd n)) (keys' c))"
    using assms(1) by (simp_all add: wf_def key_order_def)
  show ?thesis
    unfolding erase_by_key [OF d e(2)] e(1) key_order_def
    by (simp add: filter_map comp_def)
qed

subsection \<open>\<open>remove\<close>\<close>

text \<open>What \<open>remove\<close> does on a well-formed state.\<close>

lemma remove_op_wf:
  assumes "wf c"
  shows "(cache' c k = None \<longrightarrow>
      remove_op k c = Return False (c\<lparr>lock' := lock' c @ [LockCall, UnlockCall]\<rparr>)) \<and>
    (\<forall>it. cache' c k = Some it \<longrightarrow>
      (\<exists>e. deref (keys' c) it = Some e \<and> key e = k \<and>
        (let called = calls' c @ [RemoveCall (removeClientContext' c) e];
             removed = c\<lparr>lock' := lock' c @ [LockCall, UnlockCall],
               keys' := erase it (keys' c), cache' := (cache' c)(k := None),
               cacheSize' := cacheSize' c - size' e\<rparr>
         in (case removeCallback' c of
               None \<Rightarrow> remove_op k c = Return True removed
             | Some cb \<Rightarrow>
                if cb (calls' c) (removeClientContext' c) e
                then remove_op k c = Return True (removed\<lparr>calls' := called\<rparr>)
                else remove_op k c = Throw CallBackFailed
                  (c\<lparr>lock' := lock' c @ [LockCall, UnlockCall], calls' := called\<rparr>)) \<and>
            k \<notin> set (key_order removed) \<and>
            key_order removed = filter (\<lambda>x. x \<noteq> k) (key_order c) \<and>
            returned (contains k removed) = Some False \<and>
            returned (contains k (removed\<lparr>calls' := called\<rparr>)) = Some False \<and>
            wf removed)))"
proof (intro conjI allI impI)
  assume "cache' c k = None"
  then show "remove_op k c = Return False (c\<lparr>lock' := lock' c @ [LockCall, UnlockCall]\<rparr>)"
    by (simp add: remove_op_def Guard_def unlock_def)
next
  fix it assume it: "cache' c k = Some it"
  obtain e where e: "deref (keys' c) it = Some e" "key e = k"
    using wf_lookup [OF assms it] by blast
  let ?called = "calls' c @ [RemoveCall (removeClientContext' c) e]"
  let ?removed = "c\<lparr>lock' := lock' c @ [LockCall, UnlockCall],
               keys' := erase it (keys' c), cache' := (cache' c)(k := None),
               cacheSize' := cacheSize' c - size' e\<rparr>"
  have 1: "case removeCallback' c of
               None \<Rightarrow> remove_op k c = Return True ?removed
             | Some cb \<Rightarrow>
                if cb (calls' c) (removeClientContext' c) e
                then remove_op k c = Return True (?removed\<lparr>calls' := ?called\<rparr>)
                else remove_op k c = Throw CallBackFailed
                  (c\<lparr>lock' := lock' c @ [LockCall, UnlockCall], calls' := ?called\<rparr>)"
    using it e(1)
    by (simp add: remove_op_def Guard_def unlock_def call_remove_def Let_def
        split: option.splits)
  have 2: "key_order ?removed = filter (\<lambda>x. x \<noteq> k) (key_order c)"
    using key_order_erase [OF assms it] by (simp add: key_order_def)
  then have 3: "k \<notin> set (key_order ?removed)"
    by simp
  have 4: "returned (contains k ?removed) = Some False"
    "returned (contains k (?removed\<lparr>calls' := ?called\<rparr>)) = Some False"
    by (simp_all add: contains_def Guard_def unlock_def)
  have 5: "wf ?removed"
    using assms it by (rule wf_erase) simp_all
  show "\<exists>e. deref (keys' c) it = Some e \<and> key e = k \<and>
        (let called = calls' c @ [RemoveCall (removeClientContext' c) e];
             removed = c\<lparr>lock' := lock' c @ [LockCall, UnlockCall],
               keys' := erase it (keys' c), cache' := (cache' c)(k := None),
               cacheSize' := cacheSize' c - size' e\<rparr>
         in (case removeCallback' c of
               None \<Rightarrow> remove_op k c = Return True removed
             | Some cb \<Rightarrow>
                if cb (calls' c) (removeClientContext' c) e
                then remove_op k c = Return True (removed\<lparr>calls' := called\<rparr>)
                else remove_op k c = Throw CallBackFailed
                  (c\<lparr>lock' := lock' c @ [LockCall, UnlockCall], calls' := called\<rparr>)) \<and>
            k \<notin> set (key_order removed) \<and>
            key_order removed = filter (\<lambda>x. x \<noteq> k) (key_order c) \<and>
            returned (contains k removed) = Some False \<and>
            returned (contains k (removed\<lparr>calls' := called\<rparr>)) = Some False \<and>
            wf removed)"
    unfolding Let_def using e 1 2 3 4 5 by blast
qed


text \<open>
  C6. Let \<open>c\<close> be a state that a sequence of public operations, returning or throwing,
  has reached from a new cache.

  If \<open>k\<close> is not in the index, \<open>remove(k)\<close> returns false and changes nothing: the lock
  has been taken and released, and that is all.

  If \<open>k\<close> is in the index, at the node \<open>it\<close>, that node is in the list and holds an
  entry \<open>e\<close> with the key \<open>k\<close>. The remove callback, if there is one, is called with
  the global remove context and \<open>e\<close>, while the list and the index are still as they
  were. If it throws, \<open>remove\<close> throws \<open>CallBackFailed\<close> and the list, the index and
  \<open>cacheSize_\<close> are unchanged. Otherwise \<open>remove\<close> returns true; the node has left the
  list, whose other nodes keep their order, \<open>k\<close> has left the index, \<open>cacheSize_\<close> has
  gone down by the size of \<open>e\<close>, \<open>k\<close> is no key of the list any more, and
  \<open>contains(k)\<close> returns false.
\<close>

theorem remove_op_correct:
  assumes "attempt_all ops (LRUCache maxSize elasticity icb rcb ic rc) = Some c"
  shows "(cache' c k = None \<longrightarrow>
      remove_op k c = Return False (c\<lparr>lock' := lock' c @ [LockCall, UnlockCall]\<rparr>)) \<and>
    (\<forall>it. cache' c k = Some it \<longrightarrow>
      (\<exists>e. deref (keys' c) it = Some e \<and> key e = k \<and>
        (let called = calls' c @ [RemoveCall (removeClientContext' c) e];
             removed = c\<lparr>lock' := lock' c @ [LockCall, UnlockCall],
               keys' := erase it (keys' c), cache' := (cache' c)(k := None),
               cacheSize' := cacheSize' c - size' e\<rparr>
         in (case removeCallback' c of
               None \<Rightarrow> remove_op k c = Return True removed
             | Some cb \<Rightarrow>
                if cb (calls' c) (removeClientContext' c) e
                then remove_op k c = Return True (removed\<lparr>calls' := called\<rparr>)
                else remove_op k c = Throw CallBackFailed
                  (c\<lparr>lock' := lock' c @ [LockCall, UnlockCall], calls' := called\<rparr>)) \<and>
            k \<notin> set (key_order removed) \<and>
            key_order removed = filter (\<lambda>x. x \<noteq> k) (key_order c) \<and>
            returned (contains k removed) = Some False \<and>
            returned (contains k (removed\<lparr>calls' := called\<rparr>)) = Some False \<and>
            wf removed)))"
  using wf_reachable [OF assms] by (rule remove_op_wf)

theorem remove_op_correct_witness:
  "(let a = \<lparr>key = ''a'', value' = 1::nat, size' = 5\<rparr>;
        b = \<lparr>key = ''b'', value' = 2::nat, size' = 4\<rparr>;
        ops = [Insert3 ''a'' 1 5, Insert3 ''b'' 2 4];
        new = LRUCache 64 10 None None 0 0;
        new' = LRUCache 64 10 None (Some (\<lambda>h p e. key e \<noteq> ''a'')) 0 0;
        c = new\<lparr>lock' := [LockCall, UnlockCall, LockCall, UnlockCall],
              cache' := [''a'' \<mapsto> 0, ''b'' \<mapsto> 1], keys' := [(1, b), (0, a)], cacheSize' := 9\<rparr>;
        d = c\<lparr>removeCallback' := Some (\<lambda>h p e. key e \<noteq> ''a'')\<rparr>;
        done = [LockCall, UnlockCall, LockCall, UnlockCall, LockCall, UnlockCall]
    in attempt_all ops new = Some c \<and> cache' c ''x'' = None \<and>
       remove_op ''x'' c = Return False (c\<lparr>lock' := done\<rparr>) \<and>
       cache' c ''a'' = Some 0 \<and>
       remove_op ''a'' c = Return True (c\<lparr>lock' := done, keys' := [(1, b)],
         cache' := [''b'' \<mapsto> 1], cacheSize' := 4\<rparr>) \<and>
       attempt_all ops new' = Some d \<and> cache' d ''a'' = Some 0 \<and>
       remove_op ''a'' d = Throw CallBackFailed (d\<lparr>lock' := done, calls' := [RemoveCall 0 a]\<rparr>) \<and>
       cache' d ''b'' = Some 1 \<and>
       remove_op ''b'' d = Return True (d\<lparr>lock' := done, keys' := [(0, a)],
         cache' := [''a'' \<mapsto> 0], cacheSize' := 5, calls' := [RemoveCall 0 b]\<rparr>))"
proof -
  let ?a = "\<lparr>key = ''a'', value' = 1::nat, size' = 5\<rparr>"
  let ?b = "\<lparr>key = ''b'', value' = 2::nat, size' = 4\<rparr>"
  let ?ops = "[Insert3 ''a'' (1::nat) 5, Insert3 ''b'' 2 4]"
  let ?new = "LRUCache 64 10 None None 0 0 :: (string, nat) LRUCache"
  let ?new' = "LRUCache 64 10 None (Some (\<lambda>h p e. key e \<noteq> ''a'')) 0 0 :: (string, nat) LRUCache"
  let ?c = "?new\<lparr>lock' := [LockCall, UnlockCall, LockCall, UnlockCall],
              cache' := [''a'' \<mapsto> 0, ''b'' \<mapsto> 1], keys' := [(1, ?b), (0, ?a)], cacheSize' := 9\<rparr>"
  let ?d = "?c\<lparr>removeCallback' := Some (\<lambda>h p e. key e \<noteq> ''a'')\<rparr>"
  let ?done = "[LockCall, UnlockCall, LockCall, UnlockCall, LockCall, UnlockCall]"
  have rc: "attempt_all ?ops ?new = Some ?c" and rd: "attempt_all ?ops ?new' = Some ?d"
    by (simp_all add: call_defs fun_upd_twist)
  have i: "cache' ?c ''x'' = None" "cache' ?c ''a'' = Some 0" "cache' ?d ''a'' = Some 0"
    "cache' ?d ''b'' = Some 1"
    by (simp_all add: LRUCache_def)
  have 1: "remove_op ''x'' ?c = Return False (?c\<lparr>lock' := ?done\<rparr>)"
    using remove_op_correct [OF rc, of "''x''"] by (simp add: LRUCache_def)
  have 2: "remove_op ''a'' ?c = Return True (?c\<lparr>lock' := ?done,
      keys' := [(1, ?b)], cache' := [''b'' \<mapsto> 1], cacheSize' := 4\<rparr>)"
    using remove_op_correct [OF rc, of "''a''"]
    by (simp add: LRUCache_def deref_def erase_def Let_def fun_upd_twist)
  have 3: "remove_op ''a'' ?d = Throw CallBackFailed
         (?d\<lparr>lock' := ?done, calls' := [RemoveCall 0 ?a]\<rparr>)"
    using remove_op_correct [OF rd, of "''a''"]
    by (simp add: LRUCache_def deref_def erase_def Let_def fun_upd_twist)
  have 4: "remove_op ''b'' ?d = Return True (?d\<lparr>lock' := ?done,
      keys' := [(0, ?a)], cache' := [''a'' \<mapsto> 0], cacheSize' := 5, calls' := [RemoveCall 0 ?b]\<rparr>)"
    using remove_op_correct [OF rd, of "''b''"]
    by (simp add: LRUCache_def deref_def erase_def Let_def fun_upd_twist)
  show ?thesis
    unfolding Let_def using rc rd i 1 2 3 4 by blast
qed

subsection \<open>\<open>get\<close>\<close>

lemma get_present:
  assumes "cache' c k = Some it" "deref (keys' c) it = Some e"
  shows "get k c = Return (value' e)
    (c\<lparr>lock' := lock' c @ [LockCall, UnlockCall], keys' := splice_front it (keys' c)\<rparr>)"
  using assms by (simp add: get_def Guard_def unlock_def)

lemma repeat_get_present:
  "cache' c k = Some it \<Longrightarrow> deref (keys' c) it = Some e \<Longrightarrow>
     repeat_get n k c = Return (replicate n (value' e))
       (c\<lparr>lock' := lock' c @ concat (replicate n [LockCall, UnlockCall]),
          keys' := (if n = 0 then keys' c else splice_front it (keys' c))\<rparr>)"
proof (induction n arbitrary: c)
  case 0
  then show ?case by simp
next
  case (Suc n)
  let ?c = "c\<lparr>lock' := lock' c @ [LockCall, UnlockCall], keys' := splice_front it (keys' c)\<rparr>"
  have g: "get k c = Return (value' e) ?c"
    using Suc.prems by (rule get_present)
  have "cache' ?c k = Some it" "deref (keys' ?c) it = Some e"
    using Suc.prems by simp_all
  from Suc.IH [OF this] have "repeat_get n k ?c = Return (replicate n (value' e))
       (?c\<lparr>lock' := lock' ?c @ concat (replicate n [LockCall, UnlockCall]),
          keys' := (if n = 0 then keys' ?c else splice_front it (keys' ?c))\<rparr>)" .
  with g show ?case
    by simp
qed

text \<open>What \<open>get\<close> does on a well-formed state.\<close>

lemma get_wf:
  assumes "wf c"
  shows "(cache' c k = None \<longrightarrow>
      get k c = Throw KeyNotFound (c\<lparr>lock' := lock' c @ [LockCall, UnlockCall]\<rparr>)) \<and>
    (\<forall>it. cache' c k = Some it \<longrightarrow>
      (\<exists>e. deref (keys' c) it = Some e \<and> key e = k \<and>
        (let moved = (it, e) # erase it (keys' c)
         in get k c = Return (value' e)
              (c\<lparr>lock' := lock' c @ [LockCall, UnlockCall], keys' := moved\<rparr>) \<and>
            map (\<lambda>n. key (snd n)) moved = k # filter (\<lambda>x. x \<noteq> k) (key_order c) \<and>
            (\<forall>n. repeat_get (Suc n) k c = Return (replicate (Suc n) (value' e))
               (c\<lparr>lock' := lock' c @ concat (replicate (Suc n) [LockCall, UnlockCall]),
                  keys' := moved\<rparr>)))))"
proof (intro conjI allI impI)
  assume "cache' c k = None"
  then show "get k c = Throw KeyNotFound (c\<lparr>lock' := lock' c @ [LockCall, UnlockCall]\<rparr>)"
    by (simp add: get_def Guard_def unlock_def)
next
  fix it assume it: "cache' c k = Some it"
  obtain e where e: "deref (keys' c) it = Some e" "key e = k"
    using wf_lookup [OF assms it] by blast
  have d: "distinct (map fst (keys' c))"
    using assms by (simp add: wf_def)
  have m: "splice_front it (keys' c) = (it, e) # erase it (keys' c)"
    using d e(1) by (rule splice_front_node)
  have 1: "get k c = Return (value' e)
      (c\<lparr>lock' := lock' c @ [LockCall, UnlockCall], keys' := (it, e) # erase it (keys' c)\<rparr>)"
    using get_present [OF it e(1)] m by simp
  have 2: "map (\<lambda>n. key (snd n)) ((it, e) # erase it (keys' c)) =
      k # filter (\<lambda>x. x \<noteq> k) (key_order c)"
    using key_order_erase [OF assms it] e(2) by simp
  have 3: "repeat_get (Suc n) k c = Return (replicate (Suc n) (value' e))
      (c\<lparr>lock' := lock' c @ concat (replicate (Suc n) [LockCall, UnlockCall]),
         keys' := (it, e) # erase it (keys' c)\<rparr>)" for n
    using repeat_get_present [OF it e(1), of "Suc n"] m by simp
  show "\<exists>e. deref (keys' c) it = Some e \<and> key e = k \<and>
        (let moved = (it, e) # erase it (keys' c)
         in get k c = Return (value' e)
              (c\<lparr>lock' := lock' c @ [LockCall, UnlockCall], keys' := moved\<rparr>) \<and>
            map (\<lambda>n. key (snd n)) moved = k # filter (\<lambda>x. x \<noteq> k) (key_order c) \<and>
            (\<forall>n. repeat_get (Suc n) k c = Return (replicate (Suc n) (value' e))
               (c\<lparr>lock' := lock' c @ concat (replicate (Suc n) [LockCall, UnlockCall]),
                  keys' := moved\<rparr>)))"
    unfolding Let_def
  proof (intro exI [of _ e] conjI allI)
    show "deref (keys' c) it = Some e" "key e = k"
      by (rule e)+
  qed (rule 1 2 3)+
qed

text \<open>
  C7. Let \<open>c\<close> be a state that a sequence of public operations, returning or throwing,
  has reached from a new cache.

  If \<open>k\<close> is not in the index, \<open>get(k)\<close> throws \<open>KeyNotFound\<close> and changes nothing (the
  lock has been taken and released).

  If \<open>k\<close> is in the index, at the node \<open>it\<close>, that node is in the list and holds an
  entry \<open>e\<close> with the key \<open>k\<close>. \<open>get(k)\<close> returns the value of \<open>e\<close> and moves the node
  to the head of the list; nothing else changes. The keys of the list are then \<open>k\<close>
  followed by the other keys in the order they had. Any number of calls of \<open>get(k)\<close>
  in a row return that same value every time and leave the list as the first call
  left it, so the order of the other keys never changes.
\<close>

theorem get_correct:
  assumes "attempt_all ops (LRUCache maxSize elasticity icb rcb ic rc) = Some c"
  shows "(cache' c k = None \<longrightarrow>
      get k c = Throw KeyNotFound (c\<lparr>lock' := lock' c @ [LockCall, UnlockCall]\<rparr>)) \<and>
    (\<forall>it. cache' c k = Some it \<longrightarrow>
      (\<exists>e. deref (keys' c) it = Some e \<and> key e = k \<and>
        (let moved = (it, e) # erase it (keys' c)
         in get k c = Return (value' e)
              (c\<lparr>lock' := lock' c @ [LockCall, UnlockCall], keys' := moved\<rparr>) \<and>
            map (\<lambda>n. key (snd n)) moved = k # filter (\<lambda>x. x \<noteq> k) (key_order c) \<and>
            (\<forall>n. repeat_get (Suc n) k c = Return (replicate (Suc n) (value' e))
               (c\<lparr>lock' := lock' c @ concat (replicate (Suc n) [LockCall, UnlockCall]),
                  keys' := moved\<rparr>)))))"
  using wf_reachable [OF assms] by (rule get_wf)

theorem get_correct_witness:
  "(let a = \<lparr>key = ''a'', value' = 10::nat, size' = 5\<rparr>;
        b = \<lparr>key = ''b'', value' = 20::nat, size' = 4\<rparr>;
        d = \<lparr>key = ''d'', value' = 30::nat, size' = 3\<rparr>;
        ops = [Insert3 ''a'' 10 5, Insert3 ''b'' 20 4, Insert3 ''d'' 30 3];
        new = LRUCache 64 10 None None 0 0;
        once = [LockCall, UnlockCall];
        c = new\<lparr>lock' := once @ once @ once,
              cache' := [''a'' \<mapsto> 0, ''b'' \<mapsto> 1, ''d'' \<mapsto> Suc (Suc 0)],
              keys' := [(Suc (Suc 0), d), (1, b), (0, a)], cacheSize' := 12\<rparr>
    in attempt_all ops new = Some c \<and> cache' c ''x'' = None \<and>
       get ''x'' c = Throw KeyNotFound (c\<lparr>lock' := once @ once @ once @ once\<rparr>) \<and>
       cache' c ''a'' = Some 0 \<and>
       get ''a'' c = Return 10 (c\<lparr>lock' := once @ once @ once @ once,
         keys' := [(0, a), (Suc (Suc 0), d), (1, b)]\<rparr>) \<and>
       repeat_get 3 ''a'' c = Return [10, 10, 10]
         (c\<lparr>lock' := once @ once @ once @ once @ once @ once,
            keys' := [(0, a), (Suc (Suc 0), d), (1, b)]\<rparr>))"
proof -
  let ?a = "\<lparr>key = ''a'', value' = 10::nat, size' = 5\<rparr>"
  let ?b = "\<lparr>key = ''b'', value' = 20::nat, size' = 4\<rparr>"
  let ?d = "\<lparr>key = ''d'', value' = 30::nat, size' = 3\<rparr>"
  let ?ops = "[Insert3 ''a'' (10::nat) 5, Insert3 ''b'' 20 4, Insert3 ''d'' 30 3]"
  let ?new = "LRUCache 64 10 None None 0 0 :: (string, nat) LRUCache"
  let ?once = "[LockCall, UnlockCall]"
  let ?c = "?new\<lparr>lock' := ?once @ ?once @ ?once,
              cache' := [''a'' \<mapsto> 0, ''b'' \<mapsto> 1, ''d'' \<mapsto> Suc (Suc 0)],
              keys' := [(Suc (Suc 0), ?d), (1, ?b), (0, ?a)], cacheSize' := 12\<rparr>"
  have r: "attempt_all ?ops ?new = Some ?c"
    by (simp add: call_defs fun_upd_twist)
  have i: "cache' ?c ''x'' = None" "cache' ?c ''a'' = Some 0"
    by (simp_all add: LRUCache_def)
  have 1: "get ''x'' ?c = Throw KeyNotFound (?c\<lparr>lock' := ?once @ ?once @ ?once @ ?once\<rparr>)"
    using get_correct [OF r, of "''x''"] by (simp add: LRUCache_def)
  from get_correct [OF r, of "''a''"] i(2) obtain e where
    e: "deref (keys' ?c) 0 = Some e" and
    g: "get ''a'' ?c = Return (value' e)
      (?c\<lparr>lock' := lock' ?c @ ?once, keys' := (0, e) # erase 0 (keys' ?c)\<rparr>)" and
    rg: "\<And>n. repeat_get (Suc n) ''a'' ?c = Return (replicate (Suc n) (value' e))
      (?c\<lparr>lock' := lock' ?c @ concat (replicate (Suc n) ?once),
         keys' := (0, e) # erase 0 (keys' ?c)\<rparr>)"
    unfolding Let_def by blast
  from e have e': "e = ?a"
    by (simp add: deref_def LRUCache_def)
  have 2: "get ''a'' ?c = Return 10 (?c\<lparr>lock' := ?once @ ?once @ ?once @ ?once,
         keys' := [(0, ?a), (Suc (Suc 0), ?d), (1, ?b)]\<rparr>)"
    using g unfolding e' by (simp add: LRUCache_def erase_def)
  have 3: "repeat_get 3 ''a'' ?c = Return [10, 10, 10]
         (?c\<lparr>lock' := ?once @ ?once @ ?once @ ?once @ ?once @ ?once,
            keys' := [(0, ?a), (Suc (Suc 0), ?d), (1, ?b)]\<rparr>)"
    using rg [of "Suc (Suc 0)"] unfolding e'
    by (simp add: LRUCache_def erase_def numeral_3_eq_3 del: repeat_get.simps)
  show ?thesis
    unfolding Let_def using r i 1 2 3 by blast
qed

end
